theory Spec2Isabelle
  imports Complex_Main "HOL-Library.Multiset"
begin

section \<open>Python values, exceptions and two-dimensional arrays\<close>

text \<open>
  The module \<open>utils.py\<close> works on two-dimensional numpy arrays of floating point
  samples. Samples are modelled as real numbers (no rounding, no NaN, no infinity), a
  Python number is an \<open>int\<close> or a \<open>float\<close>, and every \<open>raise\<close> of the module or of
  numpy is a value \<open>Inl\<close> of the result, carrying the exception class and its message.
\<close>

datatype pynum = PyInt int | PyFloat real

datatype message =
    Invalide_boundary_mode string
  | Kernel_size_must_be_odd pynum
  | Could_not_broadcast_input_array "nat \<times> nat" "nat \<times> nat"
  | Operands_could_not_be_broadcast_together "nat \<times> nat" "nat \<times> nat"
  | Negative_dimensions_are_not_allowed
  | Float_cannot_be_interpreted_as_integer
  | Zero_size_array_to_reduction_operation
  | Data_must_be_two_dimensional

datatype exn = ValueError message | TypeError message | ZeroDivisionError | IndexError

definition then_exn :: "exn + 'a \<Rightarrow> ('a \<Rightarrow> exn + 'b) \<Rightarrow> exn + 'b" where
  "then_exn m f = (case m of Inl e \<Rightarrow> Inl e | Inr x \<Rightarrow> f x)"

text \<open>An array carries its shape, so that an array with no rows still has a width.\<close>

datatype ndarray = NDArray (nrows: nat) (ncols: nat) (rows: "real list list")

definition cell :: "ndarray \<Rightarrow> nat \<Rightarrow> nat \<Rightarrow> real" where
  "cell a i j = rows a ! i ! j"

definition of_fun :: "nat \<Rightarrow> nat \<Rightarrow> (nat \<Rightarrow> nat \<Rightarrow> real) \<Rightarrow> ndarray" where
  "of_fun m n f = NDArray m n (map (\<lambda>i. map (\<lambda>j. f i j) [0..<n]) [0..<m])"

definition wf_arr :: "ndarray \<Rightarrow> bool" where
  "wf_arr a \<longleftrightarrow> length (rows a) = nrows a \<and> (\<forall>r \<in> set (rows a). length r = ncols a)"

text \<open>\<open>np.array\<close> of a nested list with \<open>n\<close> columns.\<close>

definition np_array :: "nat \<Rightarrow> real list list \<Rightarrow> ndarray" where
  "np_array n xss = NDArray (length xss) n xss"

text \<open>
  \<open>np.empty\<close> allocates without initialising: the cells hold whatever the memory held,
  here the parameter \<open>junk\<close>. The memory may hold a bit pattern that is no number, which
  no \<open>junk\<close> stands for: a statement about an array made by \<open>np.empty\<close> speaks for the
  code only on the cells that were written since, or where it says that the array is
  the same for every \<open>junk\<close>. \<open>np.zeros_like\<close> gives zeros of the same shape.
\<close>

definition np_empty :: "(nat \<Rightarrow> nat \<Rightarrow> real) \<Rightarrow> nat \<Rightarrow> nat \<Rightarrow> ndarray" where
  "np_empty junk m n = of_fun m n junk"

definition np_zeros_like :: "ndarray \<Rightarrow> ndarray" where
  "np_zeros_like g = of_fun (nrows g) (ncols g) (\<lambda>i j. 0)"

definition np_sum :: "ndarray \<Rightarrow> real" where
  "np_sum a = sum_list (map sum_list (rows a))"

definition np_flip0 :: "ndarray \<Rightarrow> ndarray" where
  "np_flip0 a = of_fun (nrows a) (ncols a) (\<lambda>i j. cell a (nrows a - 1 - i) j)"

definition np_flip1 :: "ndarray \<Rightarrow> ndarray" where
  "np_flip1 a = of_fun (nrows a) (ncols a) (\<lambda>i j. cell a i (ncols a - 1 - j))"

subsection \<open>Slices\<close>

text \<open>
  A slice \<open>a:b\<close> of an axis of length \<open>len\<close>: a negative bound counts from the end, and
  both bounds are clipped to the axis. \<open>None\<close> is an omitted bound.
\<close>

type_synonym slice = "int option \<times> int option"

definition clip :: "nat \<Rightarrow> int \<Rightarrow> nat" where
  "clip len i = (if i < 0 then nat (max (i + int len) 0) else min (nat i) len)"

definition slice_bounds :: "nat \<Rightarrow> slice \<Rightarrow> nat \<times> nat" where
  "slice_bounds len s =
     ((case fst s of None \<Rightarrow> 0 | Some i \<Rightarrow> clip len i),
      (case snd s of None \<Rightarrow> len | Some i \<Rightarrow> clip len i))"

abbreviation sl :: "int \<Rightarrow> int \<Rightarrow> slice" where
  "sl a b \<equiv> (Some a, Some b)"

abbreviation sl_from :: "int \<Rightarrow> slice" where
  "sl_from a \<equiv> (Some a, None)"

abbreviation sl_to :: "int \<Rightarrow> slice" where
  "sl_to b \<equiv> (None, Some b)"

abbreviation sl_all :: slice where
  "sl_all \<equiv> (None, None)"

text \<open>Reading \<open>a[rs, cs]\<close>.\<close>

definition getslice :: "ndarray \<Rightarrow> slice \<Rightarrow> slice \<Rightarrow> ndarray" where
  "getslice a rs cs =
     (let (r0, r1) = slice_bounds (nrows a) rs; (c0, c1) = slice_bounds (ncols a) cs
      in of_fun (r1 - r0) (c1 - c0) (\<lambda>i j. cell a (r0 + i) (c0 + j)))"

text \<open>
  The statement \<open>a[rs, cs] = src\<close>. The source is broadcast to the shape of the target:
  each of its axes has the target's length or length one, or numpy raises \<open>ValueError\<close>.
\<close>

definition setslice :: "ndarray \<Rightarrow> slice \<Rightarrow> slice \<Rightarrow> ndarray \<Rightarrow> exn + ndarray" where
  "setslice a rs cs src =
     (let (r0, r1) = slice_bounds (nrows a) rs; (c0, c1) = slice_bounds (ncols a) cs
      in if (nrows src = r1 - r0 \<or> nrows src = 1) \<and> (ncols src = c1 - c0 \<or> ncols src = 1)
         then Inr (of_fun (nrows a) (ncols a)
                (\<lambda>i j. if r0 \<le> i \<and> i < r1 \<and> c0 \<le> j \<and> j < c1
                       then cell src (if nrows src = 1 then 0 else i - r0)
                                     (if ncols src = 1 then 0 else j - c0)
                       else cell a i j))
         else Inl (ValueError (Could_not_broadcast_input_array
                     (nrows src, ncols src) (r1 - r0, c1 - c0))))"

text \<open>The statement \<open>a[:, :] = x\<close> for a scalar \<open>x\<close>.\<close>

definition setall :: "ndarray \<Rightarrow> real \<Rightarrow> ndarray" where
  "setall a x = of_fun (nrows a) (ncols a) (\<lambda>i j. x)"

text \<open>The statement \<open>a[v, u] = x\<close> for indices in range.\<close>

definition setitem :: "ndarray \<Rightarrow> nat \<Rightarrow> nat \<Rightarrow> real \<Rightarrow> ndarray" where
  "setitem a v u x = NDArray (nrows a) (ncols a) ((rows a)[v := (rows a ! v)[u := x]])"

section \<open>The convolution engine\<close>

text \<open>
  \<open>np.sum(x * y)\<close>: the elementwise product, both operands broadcast to a common
  shape, summed over all its cells.
\<close>

definition broadcast_dim :: "nat \<Rightarrow> nat \<Rightarrow> nat option" where
  "broadcast_dim a b =
     (if a = b then Some a else if a = 1 then Some b else if b = 1 then Some a else None)"

definition sum_of_product :: "ndarray \<Rightarrow> ndarray \<Rightarrow> exn + real" where
  "sum_of_product x y =
     (case (broadcast_dim (nrows x) (nrows y), broadcast_dim (ncols x) (ncols y)) of
        (Some m, Some n) \<Rightarrow>
          Inr (\<Sum>i\<leftarrow>[0..<m]. \<Sum>j\<leftarrow>[0..<n].
                 cell x (if nrows x = 1 then 0 else i) (if ncols x = 1 then 0 else j)
               * cell y (if nrows y = 1 then 0 else i) (if ncols y = 1 then 0 else j))
      | _ \<Rightarrow> Inl (ValueError (Operands_could_not_be_broadcast_together
                     (nrows x, ncols x) (nrows y, ncols y))))"

text \<open>\<open>h[::-1, ::-1]\<close>: the kernel turned by 180 degrees.\<close>

definition h180_of :: "ndarray \<Rightarrow> ndarray" where
  "h180_of h = np_flip1 (np_flip0 h)"

text \<open>
  \<open>_convolve\<close>. The two loops are \<open>conv_rows\<close> over \<open>v\<close> and \<open>conv_cols\<close> over \<open>u\<close>;
  the loop body writes one cell of \<open>out\<close>.
\<close>

definition window :: "ndarray \<Rightarrow> nat \<Rightarrow> nat \<Rightarrow> nat \<Rightarrow> ndarray" where
  "window g radius v u =
     getslice g (sl (int v - int radius) (int v + int radius + 1))
                (sl (int u - int radius) (int u + int radius + 1))"

fun conv_cols :: "ndarray \<Rightarrow> ndarray \<Rightarrow> nat \<Rightarrow> nat \<Rightarrow> nat list \<Rightarrow> ndarray \<Rightarrow> exn + ndarray" where
  "conv_cols g h180 radius v [] out = Inr out"
| "conv_cols g h180 radius v (u # us) out =
     (case sum_of_product (window g radius v u) h180 of
        Inl e \<Rightarrow> Inl e
      | Inr s \<Rightarrow> conv_cols g h180 radius v us (setitem out v u s))"

fun conv_rows :: "ndarray \<Rightarrow> ndarray \<Rightarrow> nat \<Rightarrow> nat list \<Rightarrow> nat list \<Rightarrow> ndarray \<Rightarrow> exn + ndarray" where
  "conv_rows g h180 radius [] us out = Inr out"
| "conv_rows g h180 radius (v # vs) us out =
     (case conv_cols g h180 radius v us out of
        Inl e \<Rightarrow> Inl e
      | Inr out' \<Rightarrow> conv_rows g h180 radius vs us out')"

definition convolve :: "ndarray \<Rightarrow> ndarray \<Rightarrow> exn + ndarray" where
  "convolve g h =
     (let radius = nrows h div 2
      in conv_rows g (h180_of h) radius
           [radius ..< nrows g - radius] [radius ..< ncols g - radius] (np_zeros_like g))"

text \<open>
  \<open>convolve2d\<close>. \<open>conv_input_of\<close> is the part that builds the padded array
  \<open>conv_input\<close> (the branches \<open>fill\<close>, \<open>extend\<close>, \<open>mirror\<close>, \<open>wrap\<close> and the final
  \<open>raise\<close>); \<open>R\<close> is the radius as a Python integer, so that \<open>- R\<close> is \<open>-r\<close>.
\<close>

definition conv_input_of ::
  "(nat \<Rightarrow> nat \<Rightarrow> real) \<Rightarrow> ndarray \<Rightarrow> nat \<Rightarrow> string \<Rightarrow> real \<Rightarrow> exn + ndarray" where
  "conv_input_of junk img r boundary_mode fill =
     (let R = int r;
          conv_input = np_empty junk (nrows img + 2 * r) (ncols img + 2 * r)
      in
      if boundary_mode = ''fill'' then
        setslice (setall conv_input fill) (sl R (- R)) (sl R (- R)) img
      else if boundary_mode = ''extend'' then
        then_exn (setslice conv_input (sl R (- R)) (sl R (- R)) img) (\<lambda>c.
        then_exn (setslice c (sl_to R) sl_all (getslice c (sl R (R + 1)) sl_all)) (\<lambda>c.
        then_exn (setslice c (sl_from (- R)) sl_all (getslice c (sl (- R - 1) (- R)) sl_all)) (\<lambda>c.
        then_exn (setslice c sl_all (sl_to R) (getslice c sl_all (sl R (R + 1)))) (\<lambda>c.
                  setslice c sl_all (sl_from (- R)) (getslice c sl_all (sl (- R - 1) (- R)))))))
      else if boundary_mode = ''mirror'' then
        then_exn (setslice conv_input (sl R (- R)) (sl R (- R)) img) (\<lambda>c.
        then_exn (setslice c (sl_to R) sl_all (np_flip0 (getslice c (sl R (R + R)) sl_all))) (\<lambda>c.
        then_exn (setslice c (sl_from (- R)) sl_all
                    (np_flip0 (getslice c (sl (- R - R) (- R)) sl_all))) (\<lambda>c.
        then_exn (setslice c sl_all (sl_to R) (np_flip1 (getslice c sl_all (sl R (R + R))))) (\<lambda>c.
                  setslice c sl_all (sl_from (- R))
                    (np_flip1 (getslice c sl_all (sl (- R - R) (- R))))))))
      else if boundary_mode = ''wrap'' then
        then_exn (setslice conv_input (sl R (- R)) (sl R (- R)) img) (\<lambda>c.
        then_exn (setslice c (sl_to R) (sl R (- R)) (getslice img (sl_from (- R)) sl_all)) (\<lambda>c.
        then_exn (setslice c (sl_from (- R)) (sl R (- R)) (getslice img (sl_to R) sl_all)) (\<lambda>c.
        then_exn (setslice c (sl R (- R)) (sl_to R) (getslice img sl_all (sl_from (- R)))) (\<lambda>c.
        then_exn (setslice c (sl R (- R)) (sl_from (- R)) (getslice img sl_all (sl_to R))) (\<lambda>c.
        then_exn (setslice c (sl_to R) (sl_to R)
                    (getslice img (sl_from (- R)) (sl_from (- R)))) (\<lambda>c.
        then_exn (setslice c (sl_to R) (sl_from (- R))
                    (getslice img (sl_from (- R)) (sl_to R))) (\<lambda>c.
        then_exn (setslice c (sl_from (- R)) (sl_to R)
                    (getslice img (sl_to R) (sl_from (- R)))) (\<lambda>c.
                  setslice c (sl_from (- R)) (sl_from (- R))
                    (getslice img (sl_to R) (sl_to R))))))))))
      else Inl (ValueError (Invalide_boundary_mode boundary_mode)))"

definition convolve2d ::
  "(nat \<Rightarrow> nat \<Rightarrow> real) \<Rightarrow> ndarray \<Rightarrow> ndarray \<Rightarrow> string \<Rightarrow> real \<Rightarrow> exn + ndarray" where
  "convolve2d junk img kern boundary_mode fill =
     (let r = nrows kern div 2
      in if boundary_mode = ''valid'' then convolve img kern
         else then_exn (conv_input_of junk img r boundary_mode fill) (\<lambda>conv_input.
              then_exn (convolve conv_input kern) (\<lambda>conv_out.
                Inr (getslice conv_out (sl (int r) (- int r)) (sl (int r) (- int r))))))"

section \<open>Floating point arithmetic\<close>

text \<open>
  The samples are float64 numbers, here the reals they stand for. An arithmetic
  operation of the code on them (a product, a quotient, a sum of two numbers, a square
  root) gives the exact result rounded to a float64: \<open>fl_round\<close> is that rounding.
  numpy's own routines on float64 data are taken as they are: \<open>fl_exp\<close> is \<open>np.exp\<close>,
  \<open>fl_sum\<close>, \<open>fl_mean\<close> and \<open>fl_std\<close> are the reductions \<open>sum\<close>, \<open>mean\<close> and \<open>std\<close> of an
  array. The functions that compute with floating point take the arithmetic as their
  first argument, and what is proved of them is proved for every arithmetic, under the
  properties of the rounding that the statement names. Comparisons, copies and integer
  arithmetic are exact.
\<close>

record float_arith =
  fl_round :: "real \<Rightarrow> real"
  fl_exp :: "real \<Rightarrow> real"
  fl_sum :: "ndarray \<Rightarrow> real"
  fl_mean :: "ndarray \<Rightarrow> real"
  fl_std :: "ndarray \<Rightarrow> real"

section \<open>The kernel builder\<close>

text \<open>
  Python arithmetic on numbers: an operation on two \<open>int\<close>s gives an \<open>int\<close>, exactly;
  a \<open>float\<close> operand makes the other one a \<open>float\<close> (\<open>num_val\<close>) and the result the
  rounded \<open>float\<close>; \<open>int(x)\<close> truncates towards zero; \<open>x % 2\<close> takes the sign of the
  divisor; \<open>x // 2\<close> is the floor of the half.
\<close>

definition num_val :: "float_arith \<Rightarrow> pynum \<Rightarrow> real" where
  "num_val fl x = (case x of PyInt i \<Rightarrow> fl_round fl (real_of_int i) | PyFloat r \<Rightarrow> r)"



definition py_mul :: "float_arith \<Rightarrow> pynum \<Rightarrow> pynum \<Rightarrow> pynum" where
  "py_mul fl x y = (case (x, y) of (PyInt i, PyInt j) \<Rightarrow> PyInt (i * j)
                                 | _ \<Rightarrow> PyFloat (fl_round fl (num_val fl x * num_val fl y)))"

definition py_pow2 :: "float_arith \<Rightarrow> pynum \<Rightarrow> pynum" where
  "py_pow2 fl x = (case x of PyInt i \<Rightarrow> PyInt (i\<^sup>2) | PyFloat r \<Rightarrow> PyFloat (fl_round fl (r\<^sup>2)))"

definition py_int :: "pynum \<Rightarrow> int" where
  "py_int x = (case x of PyInt i \<Rightarrow> i
                       | PyFloat r \<Rightarrow> (if 0 \<le> r then \<lfloor>r\<rfloor> else \<lceil>r\<rceil>))"

definition py_mod2 :: "float_arith \<Rightarrow> pynum \<Rightarrow> pynum" where
  "py_mod2 fl x = (case x of PyInt i \<Rightarrow> PyInt (i mod 2)
                           | PyFloat r \<Rightarrow> PyFloat (fl_round fl (r - 2 * real_of_int \<lfloor>r / 2\<rfloor>)))"

definition py_floordiv2 :: "pynum \<Rightarrow> pynum" where
  "py_floordiv2 x = (case x of PyInt i \<Rightarrow> PyInt (i div 2)
                             | PyFloat r \<Rightarrow> PyFloat (real_of_int \<lfloor>r / 2\<rfloor>))"

text \<open>Truth of a number: \<open>not x\<close> holds for zero only.\<close>

definition py_not :: "pynum \<Rightarrow> bool" where
  "py_not x \<longleftrightarrow> (case x of PyInt i \<Rightarrow> i = 0 | PyFloat r \<Rightarrow> r = 0)"

text \<open>
  The expression that one iteration of \<open>get_gaussian_kernel\<close> stores in \<open>h[k, j]\<close>. The
  indices and \<open>mean\<close> are Python integers, so the sum of the two squares is exact; the
  divisor \<open>2.0 * sigma ** 2\<close> is a \<open>float\<close>, and the division raises when it is zero.
\<close>

definition gauss_cell :: "float_arith \<Rightarrow> int \<Rightarrow> pynum \<Rightarrow> nat \<Rightarrow> nat \<Rightarrow> exn + real" where
  "gauss_cell fl mean sigma k j =
     (let a = - ((int j - mean)\<^sup>2 + (int k - mean)\<^sup>2);
          d = num_val fl (py_mul fl (PyFloat 2) (py_pow2 fl sigma))
      in if d = 0 then Inl ZeroDivisionError
         else Inr (fl_exp fl (fl_round fl (num_val fl (PyInt a) / d))))"

text \<open>
  \<open>get_gaussian_kernel\<close>. After the parity check, \<open>np.empty((n, n))\<close> raises \<open>TypeError\<close>
  for a \<open>float\<close> and \<open>ValueError\<close> for a negative \<open>n\<close>. \<open>gk_rows\<close> is the inner loop over
  \<open>k\<close>, \<open>gk_cols\<close> the outer loop over \<open>j\<close>. \<open>h /= h.sum()\<close> divides every cell by the
  sum, which is not zero: the cell in the middle is \<open>np.exp(-0 / d)\<close>, one, and no cell
  is negative.
\<close>

fun gk_rows :: "float_arith \<Rightarrow> int \<Rightarrow> pynum \<Rightarrow> nat \<Rightarrow> nat list \<Rightarrow> ndarray \<Rightarrow> exn + ndarray" where
  "gk_rows fl mean sigma j [] h = Inr h"
| "gk_rows fl mean sigma j (k # ks) h =
     (case gauss_cell fl mean sigma k j of
        Inl e \<Rightarrow> Inl e
      | Inr x \<Rightarrow> gk_rows fl mean sigma j ks (setitem h k j x))"

fun gk_cols :: "float_arith \<Rightarrow> int \<Rightarrow> pynum \<Rightarrow> nat list \<Rightarrow> nat list \<Rightarrow> ndarray \<Rightarrow> exn + ndarray" where
  "gk_cols fl mean sigma [] ks h = Inr h"
| "gk_cols fl mean sigma (j # js) ks h =
     (case gk_rows fl mean sigma j ks h of
        Inl e \<Rightarrow> Inl e
      | Inr h' \<Rightarrow> gk_cols fl mean sigma js ks h')"

definition get_gaussian_kernel ::
  "float_arith \<Rightarrow> (nat \<Rightarrow> nat \<Rightarrow> real) \<Rightarrow> pynum \<Rightarrow> pynum \<Rightarrow> exn + ndarray" where
  "get_gaussian_kernel fl junk n sigma =
     (if py_not (py_mod2 fl n) then Inl (ValueError (Kernel_size_must_be_odd n))
      else
        let mean = py_floordiv2 n in
        case n of
          PyFloat x \<Rightarrow> Inl (TypeError Float_cannot_be_interpreted_as_integer)
        | PyInt i \<Rightarrow>
            if i < 0 then Inl (ValueError Negative_dimensions_are_not_allowed)
            else
              then_exn (gk_cols fl (py_int mean) sigma [0 ..< nat i] [0 ..< nat i]
                          (np_empty junk (nat i) (nat i))) (\<lambda>h.
                let s = fl_sum fl h
                in Inr (of_fun (nat i) (nat i) (\<lambda>k j. fl_round fl (cell h k j / s)))))"


section \<open>The maxima extractor\<close>

text \<open>
  A candidate point is the tuple \<open>(j, k, p)\<close>: column, row, score. \<open>(p > a).all()\<close> is
  \<open>all_gt p a\<close>; \<open>im[k, a:b:step]\<close> is \<open>getrow_step\<close>.
\<close>

type_synonym maximum = "int \<times> int \<times> real"

definition all_gt :: "real \<Rightarrow> ndarray \<Rightarrow> bool" where
  "all_gt p a \<longleftrightarrow> list_all (\<lambda>row. list_all (\<lambda>x. p > x) row) (rows a)"

definition getrow_step :: "ndarray \<Rightarrow> nat \<Rightarrow> slice \<Rightarrow> nat \<Rightarrow> real list" where
  "getrow_step a k s step =
     (let (c0, c1) = slice_bounds (ncols a) s
      in map (\<lambda>c. cell a k c) (filter (\<lambda>c. (c - c0) mod step = 0) [c0..<c1]))"

fun maxima_cols :: "ndarray \<Rightarrow> real \<Rightarrow> nat \<Rightarrow> nat list \<Rightarrow> maximum list \<Rightarrow> maximum list" where
  "maxima_cols im threshold k [] points = points"
| "maxima_cols im threshold k (j # js) points =
     maxima_cols im threshold k js
       (if cell im k j < threshold then points
        else
          let p = cell im k j in
          if all_gt p (getslice im (sl (int k - 1) (int k)) (sl (int j - 1) (int j + 2)))
           \<and> all_gt p (getslice im (sl (int k + 1) (int k + 2)) (sl (int j - 1) (int j + 2)))
           \<and> list_all (\<lambda>x. p > x) (getrow_step im k (sl (int j - 1) (int j + 2)) 2)
          then points @ [(int j, int k, p)]
          else points)"

fun maxima_rows :: "ndarray \<Rightarrow> real \<Rightarrow> nat list \<Rightarrow> nat list \<Rightarrow> maximum list \<Rightarrow> maximum list" where
  "maxima_rows im threshold [] js points = points"
| "maxima_rows im threshold (k # ks) js points =
     maxima_rows im threshold ks js (maxima_cols im threshold k js points)"

text \<open>
  \<open>points.sort(key=lambda v: v[2], reverse=True)\<close>: a stable sort by descending score,
  here the stable sort by ascending negated score.
\<close>

definition sort_desc :: "maximum list \<Rightarrow> maximum list" where
  "sort_desc points = sort_key (\<lambda>v. - snd (snd v)) points"

definition get_maxima :: "ndarray \<Rightarrow> real \<Rightarrow> bool \<Rightarrow> maximum list" where
  "get_maxima im threshold sort' =
     (let m = nrows im; n = ncols im;
          points = maxima_rows im threshold [1 ..< m - 1] [1 ..< n - 1] []
      in if sort' then sort_desc points else points)"

section \<open>Adaptive non-maximal suppression\<close>

text \<open>
  Reductions of a response map. \<open>H.min()\<close> is one of the cells and raises for an empty
  map. \<open>H.mean()\<close> and \<open>H.std()\<close> are the reductions of the arithmetic; \<open>np_mean\<close> and
  \<open>np_std\<close> are the mean and the deviation that they round. Of an empty map they are
  NaN in numpy and unspecified here: \<open>get_maxima\<close> compares them with no cell.
\<close>

definition np_size :: "ndarray \<Rightarrow> nat" where
  "np_size a = nrows a * ncols a"

definition np_mean :: "ndarray \<Rightarrow> real" where
  "np_mean a = np_sum a / real (np_size a)"

definition np_std :: "ndarray \<Rightarrow> real" where
  "np_std a =
     sqrt (np_sum (of_fun (nrows a) (ncols a) (\<lambda>i j. (cell a i j - np_mean a)\<^sup>2))
           / real (np_size a))"

definition np_min :: "ndarray \<Rightarrow> exn + real" where
  "np_min a = (if np_size a = 0 then Inl (ValueError Zero_size_array_to_reduction_operation)
               else Inr (Min (set (concat (rows a)))))"

definition thresh_of :: "float_arith \<Rightarrow> ndarray \<Rightarrow> bool \<Rightarrow> exn + real" where
  "thresh_of fl H use_thresh =
     (if use_thresh then Inr (fl_round fl (fl_mean fl H + fl_std fl H)) else np_min H)"

text \<open>\<open>xs[:n]\<close> for a Python integer \<open>n\<close>.\<close>

definition py_take :: "int \<Rightarrow> 'a list \<Rightarrow> 'a list" where
  "py_take n xs = take (clip (length xs) n) xs"

text \<open>\<open>_maxima_to_uv\<close>: two parallel coordinate arrays, or one array of pairs.\<close>

datatype uv = Unzipped "int list" "int list" | Zipped "(int \<times> int) list"

definition maxima_to_uv :: "maximum list \<Rightarrow> bool \<Rightarrow> uv" where
  "maxima_to_uv maxima zipped =
     (if \<not> zipped then Unzipped (map fst maxima) (map (\<lambda>mi. fst (snd mi)) maxima)
      else Zipped (map (\<lambda>mi. (fst mi, fst (snd mi))) maxima))"

text \<open>
  \<open>anms\<close>. \<open>rmin_loop\<close> is the inner loop over \<open>enumerate(maxima)\<close> for the candidate
  \<open>i\<close>, \<open>anms_loop\<close> the outer one. The coordinates are Python integers, so the sum of
  the two squares is exact, and \<open>np.sqrt\<close> rounds its root; the product \<open>c * hh\<close> is
  rounded.
\<close>

definition euclid :: "float_arith \<Rightarrow> int \<Rightarrow> int \<Rightarrow> int \<Rightarrow> int \<Rightarrow> real" where
  "euclid fl u v uu vv = fl_round fl (sqrt (real_of_int ((u - uu)\<^sup>2 + (v - vv)\<^sup>2)))"

fun rmin_loop ::
  "float_arith \<Rightarrow> nat \<Rightarrow> int \<Rightarrow> int \<Rightarrow> real \<Rightarrow> real \<Rightarrow> (nat \<times> maximum) list \<Rightarrow> real \<Rightarrow> real" where
  "rmin_loop fl i u v h c [] rmin = rmin"
| "rmin_loop fl i u v h c ((k, (uu, vv, hh)) # rest) rmin =
     (let d = euclid fl u v uu vv
      in rmin_loop fl i u v h c rest
           (if i \<noteq> k \<and> h < fl_round fl (c * hh) \<and> d < rmin then d else rmin))"

fun anms_loop ::
  "float_arith \<Rightarrow> maximum list \<Rightarrow> real \<Rightarrow> real \<Rightarrow> (nat \<times> maximum) list \<Rightarrow> maximum list
     \<Rightarrow> maximum list" where
  "anms_loop fl maxima rmax c [] anms_maxima = anms_maxima"
| "anms_loop fl maxima rmax c ((i, (u, v, h)) # rest) anms_maxima =
     anms_loop fl maxima rmax c rest
       (anms_maxima @ [(u, v, rmin_loop fl i u v h c (enumerate 0 maxima) rmax)])"

definition anms :: "float_arith \<Rightarrow> ndarray \<Rightarrow> int \<Rightarrow> real \<Rightarrow> bool \<Rightarrow> bool \<Rightarrow> exn + uv" where
  "anms fl H n c use_thresh zipped =
     then_exn (thresh_of fl H use_thresh) (\<lambda>thresh.
       let maxima = get_maxima H thresh False;
           rmax = real ((max (nrows H) (ncols H))\<^sup>2);
           anms_maxima = anms_loop fl maxima rmax c (enumerate 0 maxima) []
       in Inr (maxima_to_uv (py_take n (sort_desc anms_maxima)) zipped))"

text \<open>
  \<open>anms_kdtree\<close>. The spatial index is scipy's, not this module's: \<open>KDTree\<close> is a
  parameter. Built over the candidates' coordinates it raises or gives the query; the
  query of a point and \<open>k\<close> gives \<open>(dist[0, -1], ind[0, -1])\<close>, the distance and the index
  of the last of the \<open>k\<close> neighbours found. \<open>kd_search\<close> is the loop over \<open>k\<close> with its
  \<open>break\<close>, \<open>kd_loop\<close> the loop over the candidates.
\<close>

type_synonym kdquery = "int \<times> int \<Rightarrow> nat \<Rightarrow> real \<times> nat"

fun kd_search ::
  "float_arith \<Rightarrow> kdquery \<Rightarrow> real list \<Rightarrow> real \<Rightarrow> int \<times> int \<Rightarrow> real \<Rightarrow> nat list
     \<Rightarrow> exn + real option" where
  "kd_search fl query mh c x h [] = Inr None"
| "kd_search fl query mh c x h (k # ks) =
     (let (dist, ind) = query x k
      in if ind < length mh
         then (if h < fl_round fl (c * (mh ! ind)) then Inr (Some dist)
               else kd_search fl query mh c x h ks)
         else Inl IndexError)"

fun kd_loop ::
  "float_arith \<Rightarrow> kdquery \<Rightarrow> (int \<times> int) list \<Rightarrow> real list \<Rightarrow> real \<Rightarrow> int \<Rightarrow> nat list
     \<Rightarrow> maximum list \<Rightarrow> exn + maximum list" where
  "kd_loop fl query muv mh c edge [] anms_maxima = Inr anms_maxima"
| "kd_loop fl query muv mh c edge (i # rest) anms_maxima =
     (let (u, v) = muv ! i; h = mh ! i
      in case kd_search fl query mh c (u, v) h [2 ..< length muv] of
           Inl e \<Rightarrow> Inl e
         | Inr None \<Rightarrow> kd_loop fl query muv mh c edge rest anms_maxima
         | Inr (Some d) \<Rightarrow>
             kd_loop fl query muv mh c edge rest (anms_maxima @ [(u + edge, v + edge, d)]))"

definition anms_kdtree ::
  "float_arith \<Rightarrow> ((int \<times> int) list \<Rightarrow> exn + kdquery) \<Rightarrow> ndarray \<Rightarrow> int \<Rightarrow> real \<Rightarrow> int
     \<Rightarrow> bool \<Rightarrow> bool \<Rightarrow> exn + uv" where
  "anms_kdtree fl KDTree H0 n c edge use_thresh zipped =
     (let H = getslice H0 (sl edge (- edge)) (sl edge (- edge))
      in then_exn (thresh_of fl H use_thresh) (\<lambda>thresh.
           let maxima = get_maxima H thresh False;
               muv = map (\<lambda>mi. (fst mi, fst (snd mi))) maxima;
               mh = map (\<lambda>mi. snd (snd mi)) maxima;
               nm = length maxima
           in then_exn (KDTree muv) (\<lambda>query.
              then_exn (kd_loop fl query muv mh c edge [0 ..< nm] []) (\<lambda>anms_maxima.
                Inr (maxima_to_uv (py_take n (sort_desc anms_maxima)) zipped)))))"

section \<open>Notions used in the statements\<close>

text \<open>
  The identity-impulse kernel of radius \<open>r\<close>: side \<open>2 r + 1\<close>, all zeros except a one at
  the centre.
\<close>

definition impulse :: "nat \<Rightarrow> ndarray" where
  "impulse r = of_fun (2 * r + 1) (2 * r + 1) (\<lambda>a b. if a = r \<and> b = r then 1 else 0)"

text \<open>
  The sum that one iteration of \<open>_convolve\<close> stores in \<open>out[v, u]\<close>, and the invariant of
  the padding: the image sits in the middle of \<open>conv_input\<close>.
\<close>

definition conv_at :: "ndarray \<Rightarrow> ndarray \<Rightarrow> nat \<Rightarrow> nat \<Rightarrow> nat \<Rightarrow> real" where
  "conv_at g h r v u =
     (\<Sum>a\<le>2 * r. \<Sum>b\<le>2 * r. cell g (v - r + a) (u - r + b) * cell h (2 * r - a) (2 * r - b))"

definition centred :: "ndarray \<Rightarrow> nat \<Rightarrow> ndarray \<Rightarrow> bool" where
  "centred img r c \<longleftrightarrow>
     nrows c = nrows img + 2 * r \<and> ncols c = ncols img + 2 * r \<and>
     (\<forall>i<nrows img. \<forall>j<ncols img. cell c (r + i) (r + j) = cell img i j)"

text \<open>Memory that happens to hold zeros, for the concrete runs.\<close>

definition zeroed :: "nat \<Rightarrow> nat \<Rightarrow> real" where
  "zeroed i j = 0"

text \<open>
  The eight neighbours of a cell, and the test of the specification: the score
  reaches the threshold and is strictly greater than each of the eight neighbours.
\<close>

definition neighbours8 :: "nat \<Rightarrow> nat \<Rightarrow> (nat \<times> nat) list" where
  "neighbours8 k j =
     [(k - 1, j - 1), (k - 1, j), (k - 1, j + 1),
      (k, j - 1), (k, j + 1),
      (k + 1, j - 1), (k + 1, j), (k + 1, j + 1)]"

definition strict_peak :: "ndarray \<Rightarrow> real \<Rightarrow> nat \<Rightarrow> nat \<Rightarrow> bool" where
  "strict_peak im threshold k j \<longleftrightarrow>
     threshold \<le> cell im k j \<and> list_all (\<lambda>(a, b). cell im a b < cell im k j) (neighbours8 k j)"

text \<open>The interior cells in row-major scan order.\<close>

definition interior_cells :: "ndarray \<Rightarrow> (nat \<times> nat) list" where
  "interior_cells im = List.product [1 ..< nrows im - 1] [1 ..< ncols im - 1]"

text \<open>
  A reference index for the concrete runs: the neighbours of a point in the order of
  their distance, ties in the order of the candidates.
\<close>

definition KDTree_ref :: "(int \<times> int) list \<Rightarrow> exn + kdquery" where
  "KDTree_ref pts =
     (if pts = [] then Inl (ValueError Data_must_be_two_dimensional)
      else Inr (\<lambda>x k.
        let ranked = sort_key fst
              (map (\<lambda>(i, p). ((fst x - fst p)\<^sup>2 + (snd x - snd p)\<^sup>2, i)) (enumerate 0 pts));
            (d2, ind) = last (take k ranked)
        in (sqrt (real_of_int d2), ind)))"

text \<open>The test of the loop body of \<open>get_maxima\<close>, as the code writes it.\<close>

definition body_test :: "ndarray \<Rightarrow> real \<Rightarrow> nat \<Rightarrow> nat \<Rightarrow> bool" where
  "body_test im threshold k j \<longleftrightarrow>
     \<not> cell im k j < threshold
     \<and> all_gt (cell im k j) (getslice im (sl (int k - 1) (int k)) (sl (int j - 1) (int j + 2)))
     \<and> all_gt (cell im k j) (getslice im (sl (int k + 1) (int k + 2)) (sl (int j - 1) (int j + 2)))
     \<and> list_all (\<lambda>x. cell im k j > x) (getrow_step im k (sl (int j - 1) (int j + 2)) 2)"

text \<open>
  The arithmetic that rounds nothing, for the concrete runs: they compute with values
  on which float64 arithmetic rounds nothing either.
\<close>

definition exact :: float_arith where
  "exact = \<lparr>fl_round = (\<lambda>x. x), fl_exp = exp, fl_sum = np_sum,
             fl_mean = np_mean, fl_std = np_std\<rparr>"

text \<open>
  The place of a candidate in the plane, the plane being the complex numbers: \<open>dist\<close> of
  two places is their Euclidean distance.
\<close>

definition place :: "maximum \<Rightarrow> complex" where
  "place m = Complex (real_of_int (fst m)) (real_of_int (fst (snd m)))"

text \<open>
  The suppression radius of the specification. The candidates significantly stronger
  than candidate \<open>i\<close> are the other candidates \<open>k\<close> with \<open>h_i < c * h_k\<close>, the product
  being the float64 product. The radius is the least Euclidean distance from candidate
  \<open>i\<close> to one of them, as a float64; the sentinel \<open>rmax\<close> when there is none.
\<close>

definition stronger :: "float_arith \<Rightarrow> maximum list \<Rightarrow> real \<Rightarrow> nat \<Rightarrow> nat set" where
  "stronger fl maxima c i =
     {k. k < length maxima \<and> k \<noteq> i
         \<and> snd (snd (maxima ! i)) < fl_round fl (c * snd (snd (maxima ! k)))}"

definition spec_rmin :: "float_arith \<Rightarrow> maximum list \<Rightarrow> real \<Rightarrow> real \<Rightarrow> nat \<Rightarrow> real" where
  "spec_rmin fl maxima c rmax i =
     (if stronger fl maxima c i = {} then rmax
      else fl_round fl
             (Min ((\<lambda>k. dist (place (maxima ! i)) (place (maxima ! k))) ` stronger fl maxima c i)))"

definition spec_radii :: "float_arith \<Rightarrow> maximum list \<Rightarrow> real \<Rightarrow> real \<Rightarrow> maximum list" where
  "spec_radii fl maxima c rmax =
     map (\<lambda>i. (fst (maxima ! i), fst (snd (maxima ! i)), spec_rmin fl maxima c rmax i))
         [0 ..< length maxima]"

text \<open>
  The points of a result, whichever its format; the map that \<open>anms_kdtree\<close> works on,
  \<open>H[edge:-edge, edge:-edge]\<close>; the coordinates of a candidate.
\<close>

fun uv_points :: "uv \<Rightarrow> (int \<times> int) list" where
  "uv_points (Unzipped us vs) = zip us vs"
| "uv_points (Zipped ps) = ps"

definition trim :: "ndarray \<Rightarrow> int \<Rightarrow> ndarray" where
  "trim H0 edge = getslice H0 (sl edge (- edge)) (sl edge (- edge))"

definition coord :: "maximum \<Rightarrow> int \<times> int" where
  "coord mi = (fst mi, fst (snd mi))"

text \<open>
  The progressive search of candidate \<open>i\<close> finds a qualifying neighbour at \<open>k\<close>: the last
  of the \<open>k\<close> neighbours that the index gives is significantly stronger.
\<close>

definition finds :: "float_arith \<Rightarrow> kdquery \<Rightarrow> maximum list \<Rightarrow> real \<Rightarrow> nat \<Rightarrow> nat \<Rightarrow> bool" where
  "finds fl query maxima c i k \<longleftrightarrow>
     snd (snd (maxima ! i))
       < fl_round fl (c * snd (snd (maxima ! snd (query (coord (maxima ! i)) k))))"

text \<open>
  The entries that the loop of \<open>anms_kdtree\<close> appends: for each candidate the first \<open>k\<close>
  at which its search finds a neighbour, if there is one.
\<close>

definition kd_first ::
  "float_arith \<Rightarrow> kdquery \<Rightarrow> (int \<times> int) list \<Rightarrow> real list \<Rightarrow> real \<Rightarrow> nat \<Rightarrow> nat option" where
  "kd_first fl query muv mh c i =
     find (\<lambda>k. mh ! i < fl_round fl (c * mh ! snd (query (muv ! i) k))) [2 ..< length muv]"

definition kd_entries ::
  "float_arith \<Rightarrow> kdquery \<Rightarrow> (int \<times> int) list \<Rightarrow> real list \<Rightarrow> real \<Rightarrow> int \<Rightarrow> maximum list" where
  "kd_entries fl query muv mh c edge =
     concat (map (\<lambda>i. case kd_first fl query muv mh c i of
                         None \<Rightarrow> []
                       | Some k \<Rightarrow> [(fst (muv ! i) + edge, snd (muv ! i) + edge,
                                     fst (query (muv ! i) k))])
                 [0 ..< length muv])"


text \<open>
  A response map for the concrete runs: three peaks in its middle row, at the columns
  2, 4 and 6, with the scores 4, 1 and 1.
\<close>

definition three_peaks :: ndarray where
  "three_peaks = np_array 9
     [[0, 0, 0, 0, 0, 0, 0, 0, 0],
      [0, 0, 0, 0, 0, 0, 0, 0, 0],
      [0, 0, 4, 0, 1, 0, 1, 0, 0],
      [0, 0, 0, 0, 0, 0, 0, 0, 0],
      [0, 0, 0, 0, 0, 0, 0, 0, 0]]"

section \<open>Arrays, slices and the convolution loops\<close>

lemma then_exn_simps:
  "then_exn (Inl e) f = Inl e" "then_exn (Inr x) f = f x"
  by (simp_all add: then_exn_def)

lemma nrows_of_fun [simp]: "nrows (of_fun m n f) = m"
  and ncols_of_fun [simp]: "ncols (of_fun m n f) = n"
  by (simp_all add: of_fun_def)

lemma cell_of_fun [simp]: "i < m \<Longrightarrow> j < n \<Longrightarrow> cell (of_fun m n f) i j = f i j"
  by (simp add: of_fun_def cell_def)

lemma wf_of_fun [simp]: "wf_arr (of_fun m n f)"
  by (auto simp: of_fun_def wf_arr_def)

lemma of_fun_cong:
  "(\<And>i j. i < m \<Longrightarrow> j < n \<Longrightarrow> f i j = g i j) \<Longrightarrow> of_fun m n f = of_fun m n g"
  by (simp add: of_fun_def)

lemma of_fun_cell: "wf_arr a \<Longrightarrow> of_fun (nrows a) (ncols a) (cell a) = a"
proof -
  assume wf: "wf_arr a"
  have "map (\<lambda>i. map (\<lambda>j. rows a ! i ! j) [0..<ncols a]) [0..<nrows a] = rows a"
  proof (rule nth_equalityI)
    show "length (map (\<lambda>i. map (\<lambda>j. rows a ! i ! j) [0..<ncols a]) [0..<nrows a]) = length (rows a)"
      using wf by (simp add: wf_arr_def)
  next
    fix i assume "i < length (map (\<lambda>i. map (\<lambda>j. rows a ! i ! j) [0..<ncols a]) [0..<nrows a])"
    then have i: "i < nrows a" by simp
    then have "length (rows a ! i) = ncols a" using wf by (simp add: wf_arr_def)
    then have "map (\<lambda>j. rows a ! i ! j) [0..<ncols a] = rows a ! i"
      by (metis map_nth)
    then show "map (\<lambda>i. map (\<lambda>j. rows a ! i ! j) [0..<ncols a]) [0..<nrows a] ! i = rows a ! i"
      using i by simp
  qed
  then show ?thesis by (cases a) (simp add: of_fun_def cell_def)
qed

lemma ndarray_eqI:
  assumes "wf_arr a" "wf_arr b" "nrows a = nrows b" "ncols a = ncols b"
    and "\<And>i j. i < nrows a \<Longrightarrow> j < ncols a \<Longrightarrow> cell a i j = cell b i j"
  shows "a = b"
proof -
  have "of_fun (nrows a) (ncols a) (cell a) = of_fun (nrows a) (ncols a) (cell b)"
    using assms(5) by (rule of_fun_cong)
  then show ?thesis using assms(1-4) by (metis of_fun_cell)
qed

lemma setitem_of_fun:
  assumes "wf_arr a" "v < nrows a" "u < ncols a"
  shows "setitem a v u x = of_fun (nrows a) (ncols a) (\<lambda>i j. if i = v \<and> j = u then x else cell a i j)"
proof (rule ndarray_eqI)
  show "wf_arr (setitem a v u x)"
    using assms by (auto simp: setitem_def wf_arr_def dest!: set_update_subset_insert[THEN subsetD])
next
  fix i j assume "i < nrows (setitem a v u x)" "j < ncols (setitem a v u x)"
  then have ij: "i < nrows a" "j < ncols a" by (simp_all add: setitem_def)
  have len: "length (rows a) = nrows a" "length (rows a ! v) = ncols a"
    using assms by (simp_all add: wf_arr_def)
  show "cell (setitem a v u x) i j = cell (of_fun (nrows a) (ncols a) (\<lambda>i j. if i = v \<and> j = u then x else cell a i j)) i j"
    using ij len assms by (simp add: setitem_def cell_def nth_list_update of_fun_def)
qed (simp_all add: setitem_def)

lemma conv_cols_closed:
  assumes "wf_arr out" "v < nrows out" "\<forall>u\<in>set us. u < ncols out"
    and "\<And>u. u \<in> set us \<Longrightarrow> sum_of_product (window g radius v u) h180 = Inr (S v u)"
  shows "conv_cols g h180 radius v us out =
         Inr (of_fun (nrows out) (ncols out)
               (\<lambda>i j. if i = v \<and> j \<in> set us then S v j else cell out i j))"
  using assms
proof (induction us arbitrary: out)
  case Nil
  then show ?case by (simp add: of_fun_cell)
next
  case (Cons u us)
  let ?o = "setitem out v u (S v u)"
  have o: "?o = of_fun (nrows out) (ncols out) (\<lambda>i j. if i = v \<and> j = u then S v u else cell out i j)"
    using Cons.prems by (simp add: setitem_of_fun)
  have "conv_cols g h180 radius v us ?o =
        Inr (of_fun (nrows ?o) (ncols ?o) (\<lambda>i j. if i = v \<and> j \<in> set us then S v j else cell ?o i j))"
    using Cons.prems by (intro Cons.IH) (simp_all add: o)
  also have "of_fun (nrows ?o) (ncols ?o) (\<lambda>i j. if i = v \<and> j \<in> set us then S v j else cell ?o i j)
           = of_fun (nrows out) (ncols out) (\<lambda>i j. if i = v \<and> j \<in> set (u # us) then S v j else cell out i j)"
    unfolding o by (auto intro!: of_fun_cong)
  finally show ?case using Cons.prems(4)[of u] by simp
qed

lemma conv_rows_closed:
  assumes "wf_arr out" "\<forall>v\<in>set vs. v < nrows out" "\<forall>u\<in>set us. u < ncols out"
    and "\<And>v u. v \<in> set vs \<Longrightarrow> u \<in> set us \<Longrightarrow>
           sum_of_product (window g radius v u) h180 = Inr (S v u)"
  shows "conv_rows g h180 radius vs us out =
         Inr (of_fun (nrows out) (ncols out)
               (\<lambda>i j. if i \<in> set vs \<and> j \<in> set us then S i j else cell out i j))"
  using assms
proof (induction vs arbitrary: out)
  case Nil
  then show ?case by (simp add: of_fun_cell)
next
  case (Cons v vs)
  let ?o = "of_fun (nrows out) (ncols out) (\<lambda>i j. if i = v \<and> j \<in> set us then S v j else cell out i j)"
  have step: "conv_cols g h180 radius v us out = Inr ?o"
    using Cons.prems by (intro conv_cols_closed) simp_all
  have "conv_rows g h180 radius vs us ?o =
        Inr (of_fun (nrows ?o) (ncols ?o) (\<lambda>i j. if i \<in> set vs \<and> j \<in> set us then S i j else cell ?o i j))"
    using Cons.prems by (intro Cons.IH) simp_all
  also have "of_fun (nrows ?o) (ncols ?o) (\<lambda>i j. if i \<in> set vs \<and> j \<in> set us then S i j else cell ?o i j)
           = of_fun (nrows out) (ncols out) (\<lambda>i j. if i \<in> set (v # vs) \<and> j \<in> set us then S i j else cell out i j)"
    by (auto intro!: of_fun_cong)
  finally show ?case using step by simp
qed

lemma clip_nat: "clip len (int k) = min k len"
  by (simp add: clip_def)

lemma clip_neg: "0 < k \<Longrightarrow> clip len (- int k) = len - k"
  by (auto simp: clip_def max_def)

lemma clip_diff: "r \<le> v \<Longrightarrow> clip len (int v - int r) = min (v - r) len"
  by (auto simp: clip_def min_def)

lemma clip_add1: "clip len (int v + int r + 1) = min (v + r + 1) len"
  by (auto simp: clip_def min_def)

lemma sum_list_upt_atMost: "(\<Sum>i\<leftarrow>[0..<Suc n]. f i) = (\<Sum>i\<le>n. f i)" for f :: "nat \<Rightarrow> real"
proof -
  have "(\<Sum>i\<leftarrow>[0..<Suc n]. f i) = sum f (set [0..<Suc n])"
    by (rule interv_sum_list_conv_sum_set_nat)
  also have "set [0..<Suc n] = {..n}" by auto
  finally show ?thesis .
qed

lemma window_shape:
  assumes "r \<le> v" "v + r < nrows g" "r \<le> u" "u + r < ncols g"
  shows "window g r v u = of_fun (Suc (2 * r)) (Suc (2 * r)) (\<lambda>i j. cell g (v - r + i) (u - r + j))"
proof -
  have "slice_bounds (nrows g) (sl (int v - int r) (int v + int r + 1)) = (v - r, v + r + 1)"
    using assms by (auto simp: slice_bounds_def clip_def)
  moreover have "slice_bounds (ncols g) (sl (int u - int r) (int u + int r + 1)) = (u - r, u + r + 1)"
    using assms by (auto simp: slice_bounds_def clip_def)
  moreover have "v + r + 1 - (v - r) = Suc (2 * r)" "u + r + 1 - (u - r) = Suc (2 * r)"
    using assms by auto
  ultimately show ?thesis by (simp add: window_def getslice_def mult_2)
qed

lemma cell_h180:
  assumes "a < nrows h" "b < ncols h"
  shows "cell (h180_of h) a b = cell h (nrows h - 1 - a) (ncols h - 1 - b)"
  using assms by (simp add: h180_of_def np_flip0_def np_flip1_def)

lemma sum_of_product_window:
  assumes "nrows h = Suc (2 * r)" "ncols h = Suc (2 * r)"
    and "r \<le> v" "v + r < nrows g" "r \<le> u" "u + r < ncols g"
  shows "sum_of_product (window g r v u) (h180_of h) = Inr (conv_at g h r v u)"
proof -
  let ?n = "2 * r"
  let ?w = "window g r v u"
  let ?k = "h180_of h"
  have sh: "nrows ?k = Suc ?n" "ncols ?k = Suc ?n" "nrows ?w = Suc ?n" "ncols ?w = Suc ?n"
    using assms by (simp_all add: h180_of_def np_flip0_def np_flip1_def window_shape)
  have idx: "(if Suc ?n = 1 then 0 else i) = i" if "i \<in> {..?n}" for i
    using that by auto
  have "sum_of_product ?w ?k =
        Inr (\<Sum>i\<leftarrow>[0..<Suc ?n]. \<Sum>j\<leftarrow>[0..<Suc ?n].
               cell ?w (if Suc ?n = 1 then 0 else i) (if Suc ?n = 1 then 0 else j)
             * cell ?k (if Suc ?n = 1 then 0 else i) (if Suc ?n = 1 then 0 else j))"
    unfolding sum_of_product_def sh broadcast_dim_def by simp
  also have "(\<Sum>i\<leftarrow>[0..<Suc ?n]. \<Sum>j\<leftarrow>[0..<Suc ?n].
               cell ?w (if Suc ?n = 1 then 0 else i) (if Suc ?n = 1 then 0 else j)
             * cell ?k (if Suc ?n = 1 then 0 else i) (if Suc ?n = 1 then 0 else j))
           = (\<Sum>i\<le>?n. \<Sum>j\<le>?n.
               cell ?w (if Suc ?n = 1 then 0 else i) (if Suc ?n = 1 then 0 else j)
             * cell ?k (if Suc ?n = 1 then 0 else i) (if Suc ?n = 1 then 0 else j))"
    unfolding sum_list_upt_atMost ..
  also have "\<dots> = (\<Sum>i\<le>?n. \<Sum>j\<le>?n. cell ?w i j * cell ?k i j)"
    by (intro sum.cong refl) (simp only: idx)
  also have "\<dots> = conv_at g h r v u"
    unfolding conv_at_def using assms
    by (intro sum.cong refl) (simp add: window_shape cell_h180)
  finally show ?thesis .
qed

lemma convolve_closed:
  assumes "nrows h = Suc (2 * r)" "ncols h = Suc (2 * r)"
  shows "convolve g h =
         Inr (of_fun (nrows g) (ncols g)
               (\<lambda>v u. if r \<le> v \<and> v + r < nrows g \<and> r \<le> u \<and> u + r < ncols g
                      then conv_at g h r v u else 0))"
proof -
  have r: "nrows h div 2 = r" using assms by simp
  have "conv_rows g (h180_of h) r [r ..< nrows g - r] [r ..< ncols g - r] (np_zeros_like g) =
        Inr (of_fun (nrows (np_zeros_like g)) (ncols (np_zeros_like g))
          (\<lambda>i j. if i \<in> set [r ..< nrows g - r] \<and> j \<in> set [r ..< ncols g - r]
                  then conv_at g h r i j else cell (np_zeros_like g) i j))"
    using assms
    by (intro conv_rows_closed) (auto simp: np_zeros_like_def intro!: sum_of_product_window)
  also have "of_fun (nrows (np_zeros_like g)) (ncols (np_zeros_like g))
          (\<lambda>i j. if i \<in> set [r ..< nrows g - r] \<and> j \<in> set [r ..< ncols g - r]
                  then conv_at g h r i j else cell (np_zeros_like g) i j)
        = of_fun (nrows g) (ncols g)
               (\<lambda>v u. if r \<le> v \<and> v + r < nrows g \<and> r \<le> u \<and> u + r < ncols g
                      then conv_at g h r v u else 0)"
    by (auto simp: np_zeros_like_def intro!: of_fun_cong)
  finally show ?thesis by (simp add: convolve_def r)
qed

lemma sb_all: "slice_bounds n sl_all = (0, n)"
  by (simp add: slice_bounds_def)

lemma sb_mid: "0 < r \<Longrightarrow> slice_bounds (M + 2 * r) (sl (int r) (- int r)) = (r, M + r)"
  by (auto simp: slice_bounds_def clip_def)

lemma sb_to: "slice_bounds (M + 2 * r) (sl_to (int r)) = (0, r)"
  by (auto simp: slice_bounds_def clip_def)

lemma sb_from: "0 < r \<Longrightarrow> slice_bounds (M + 2 * r) (sl_from (- int r)) = (M + r, M + 2 * r)"
  by (auto simp: slice_bounds_def clip_def)

lemma sb_r1: "0 < r \<Longrightarrow> slice_bounds (M + 2 * r) (sl (int r) (int r + 1)) = (r, r + 1)"
  by (auto simp: slice_bounds_def clip_def)

lemma sb_m1: "0 < r \<Longrightarrow> slice_bounds (M + 2 * r) (sl (- int r - 1) (- int r)) = (M + r - 1, M + r)"
  by (auto simp: slice_bounds_def clip_def)

lemma sb_rr: "slice_bounds (M + 2 * r) (sl (int r) (int r + int r)) = (r, 2 * r)"
  by (auto simp: slice_bounds_def clip_def)

lemma sb_mrr: "0 < r \<Longrightarrow> slice_bounds (M + 2 * r) (sl (- int r - int r) (- int r)) = (M, M + r)"
  by (auto simp: slice_bounds_def clip_def)

lemma sb_img_from: "0 < r \<Longrightarrow> slice_bounds M (sl_from (- int r)) = (M - r, M)"
  by (auto simp: slice_bounds_def clip_def)

lemma sb_img_to: "slice_bounds M (sl_to (int r)) = (0, min r M)"
  by (auto simp: slice_bounds_def clip_def)

lemma sb_rr2: "slice_bounds (M + 2 * r) (sl (int r) (2 * int r)) = (r, 2 * r)"
  by (auto simp: slice_bounds_def clip_def)

lemma sb_mrr2: "0 < r \<Longrightarrow> slice_bounds (M + 2 * r) (sl (- (2 * int r)) (- int r)) = (M, M + r)"
  by (auto simp: slice_bounds_def clip_def)

lemmas sb = sb_all sb_mid sb_to sb_from sb_r1 sb_m1 sb_rr sb_mrr sb_rr2 sb_mrr2

lemma setslice_eq:
  assumes "slice_bounds (nrows a) rs = (r0, r1)" "slice_bounds (ncols a) cs = (c0, c1)"
    and "nrows src = r1 - r0 \<or> nrows src = 1" "ncols src = c1 - c0 \<or> ncols src = 1"
  shows "setslice a rs cs src =
         Inr (of_fun (nrows a) (ncols a)
               (\<lambda>i j. if r0 \<le> i \<and> i < r1 \<and> c0 \<le> j \<and> j < c1
                      then cell src (if nrows src = 1 then 0 else i - r0)
                                    (if ncols src = 1 then 0 else j - c0)
                      else cell a i j))"
  using assms unfolding setslice_def by simp

lemma setslice_is:
  assumes "slice_bounds (nrows a) rs = (r0, r1)" "slice_bounds (ncols a) cs = (c0, c1)"
    and "nrows src = r1 - r0 \<or> nrows src = 1" "ncols src = c1 - c0 \<or> ncols src = 1"
    and "\<And>i j. i < nrows a \<Longrightarrow> j < ncols a \<Longrightarrow>
           (if r0 \<le> i \<and> i < r1 \<and> c0 \<le> j \<and> j < c1
            then cell src (if nrows src = 1 then 0 else i - r0) (if ncols src = 1 then 0 else j - c0)
            else cell a i j) = f i j"
  shows "setslice a rs cs src = Inr (of_fun (nrows a) (ncols a) f)"
  unfolding setslice_eq[OF assms(1-4)] using assms(5) by (auto intro!: of_fun_cong)

lemma setslice_rule:
  assumes "nrows src = snd (slice_bounds (nrows a) rs) - fst (slice_bounds (nrows a) rs) \<or> nrows src = 1"
    and "ncols src = snd (slice_bounds (ncols a) cs) - fst (slice_bounds (ncols a) cs) \<or> ncols src = 1"
    and "\<And>i j. i < nrows a \<Longrightarrow> j < ncols a \<Longrightarrow>
           (if fst (slice_bounds (nrows a) rs) \<le> i \<and> i < snd (slice_bounds (nrows a) rs) \<and>
               fst (slice_bounds (ncols a) cs) \<le> j \<and> j < snd (slice_bounds (ncols a) cs)
            then cell src (if nrows src = 1 then 0 else i - fst (slice_bounds (nrows a) rs))
                          (if ncols src = 1 then 0 else j - fst (slice_bounds (ncols a) cs))
            else cell a i j) = f i j"
  shows "setslice a rs cs src = Inr (of_fun (nrows a) (ncols a) f)"
  using assms by (intro setslice_is[of _ _ "fst (slice_bounds (nrows a) rs)" "snd (slice_bounds (nrows a) rs)"
        _ "fst (slice_bounds (ncols a) cs)" "snd (slice_bounds (ncols a) cs)"]) auto

lemma setslice_same:
  assumes "nrows src = snd (slice_bounds (nrows a) rs) - fst (slice_bounds (nrows a) rs)"
    and "ncols src = snd (slice_bounds (ncols a) cs) - fst (slice_bounds (ncols a) cs)"
    and "\<And>i j. i < nrows a \<Longrightarrow> j < ncols a \<Longrightarrow>
           (if fst (slice_bounds (nrows a) rs) \<le> i \<and> i < snd (slice_bounds (nrows a) rs) \<and>
               fst (slice_bounds (ncols a) cs) \<le> j \<and> j < snd (slice_bounds (ncols a) cs)
            then cell src (i - fst (slice_bounds (nrows a) rs)) (j - fst (slice_bounds (ncols a) cs))
            else cell a i j) = f i j"
  shows "setslice a rs cs src = Inr (of_fun (nrows a) (ncols a) f)"
proof (rule setslice_rule)
  fix i j assume ij: "i < nrows a" "j < ncols a"
  let ?r0 = "fst (slice_bounds (nrows a) rs)" and ?r1 = "snd (slice_bounds (nrows a) rs)"
  let ?c0 = "fst (slice_bounds (ncols a) cs)" and ?c1 = "snd (slice_bounds (ncols a) cs)"
  have "(if nrows src = 1 then 0 else i - ?r0) = i - ?r0" if "?r0 \<le> i" "i < ?r1"
    using that assms(1) by auto
  moreover have "(if ncols src = 1 then 0 else j - ?c0) = j - ?c0" if "?c0 \<le> j" "j < ?c1"
    using that assms(2) by auto
  ultimately show "(if ?r0 \<le> i \<and> i < ?r1 \<and> ?c0 \<le> j \<and> j < ?c1
            then cell src (if nrows src = 1 then 0 else i - ?r0) (if ncols src = 1 then 0 else j - ?c0)
            else cell a i j) = f i j"
    using assms(3)[OF ij] by auto
qed (use assms in auto)

lemma nrows_getslice:
  "nrows (getslice a rs cs) = snd (slice_bounds (nrows a) rs) - fst (slice_bounds (nrows a) rs)"
  by (simp add: getslice_def split_beta)

lemma ncols_getslice:
  "ncols (getslice a rs cs) = snd (slice_bounds (ncols a) cs) - fst (slice_bounds (ncols a) cs)"
  by (simp add: getslice_def split_beta)

lemma cell_getslice:
  "i < snd (slice_bounds (nrows a) rs) - fst (slice_bounds (nrows a) rs) \<Longrightarrow>
   j < snd (slice_bounds (ncols a) cs) - fst (slice_bounds (ncols a) cs) \<Longrightarrow>
   cell (getslice a rs cs) i j =
   cell a (fst (slice_bounds (nrows a) rs) + i) (fst (slice_bounds (ncols a) cs) + j)"
  by (simp add: getslice_def split_beta)

lemma nrows_flip [simp]: "nrows (np_flip0 a) = nrows a" "ncols (np_flip0 a) = ncols a"
  "nrows (np_flip1 a) = nrows a" "ncols (np_flip1 a) = ncols a"
  by (simp_all add: np_flip0_def np_flip1_def)

lemma cell_flip0: "i < nrows a \<Longrightarrow> j < ncols a \<Longrightarrow> cell (np_flip0 a) i j = cell a (nrows a - 1 - i) j"
  by (simp add: np_flip0_def)

lemma cell_flip1: "i < nrows a \<Longrightarrow> j < ncols a \<Longrightarrow> cell (np_flip1 a) i j = cell a i (ncols a - 1 - j)"
  by (simp add: np_flip1_def)

lemmas gs = nrows_getslice ncols_getslice cell_getslice cell_flip0 cell_flip1

lemma getslice_eq:
  assumes "slice_bounds (nrows a) rs = (r0, r1)" "slice_bounds (ncols a) cs = (c0, c1)"
  shows "getslice a rs cs = of_fun (r1 - r0) (c1 - c0) (\<lambda>i j. cell a (r0 + i) (c0 + j))"
  using assms unfolding getslice_def by simp

lemma keeps_centre:
  assumes "centred img r c"
    and "slice_bounds (nrows c) rs = (r0, r1)" "slice_bounds (ncols c) cs = (c0, c1)"
    and "nrows src = r1 - r0 \<or> nrows src = 1" "ncols src = c1 - c0 \<or> ncols src = 1"
    and "r1 \<le> r \<or> nrows img + r \<le> r0 \<or> c1 \<le> r \<or> ncols img + r \<le> c0"
  shows "\<exists>c'. setslice c rs cs src = Inr c' \<and> centred img r c'"
proof -
  let ?c' = "of_fun (nrows c) (ncols c)
               (\<lambda>i j. if r0 \<le> i \<and> i < r1 \<and> c0 \<le> j \<and> j < c1
                      then cell src (if nrows src = 1 then 0 else i - r0)
                                    (if ncols src = 1 then 0 else j - c0)
                      else cell c i j)"
  have "setslice c rs cs src = Inr ?c'"
    using assms(2-5) by (rule setslice_eq)
  moreover have "centred img r ?c'"
    using assms(1,6) unfolding centred_def by auto
  ultimately show ?thesis by blast
qed

lemma first_centre:
  assumes "0 < r" "nrows c = nrows img + 2 * r" "ncols c = ncols img + 2 * r"
  shows "\<exists>c'. setslice c (sl (int r) (- int r)) (sl (int r) (- int r)) img = Inr c' \<and> centred img r c'"
proof -
  have b: "slice_bounds (nrows c) (sl (int r) (- int r)) = (r, nrows img + r)"
       "slice_bounds (ncols c) (sl (int r) (- int r)) = (r, ncols img + r)"
    using assms by (simp_all add: sb_mid)
  have "setslice c (sl (int r) (- int r)) (sl (int r) (- int r)) img =
    Inr (of_fun (nrows c) (ncols c)
               (\<lambda>i j. if r \<le> i \<and> i < nrows img + r \<and> r \<le> j \<and> j < ncols img + r
                      then cell img (if nrows img = 1 then 0 else i - r)
                                    (if ncols img = 1 then 0 else j - r)
                      else cell c i j))"
    by (rule setslice_eq[OF b]) simp_all
  moreover have "centred img r (of_fun (nrows c) (ncols c)
               (\<lambda>i j. if r \<le> i \<and> i < nrows img + r \<and> r \<le> j \<and> j < ncols img + r
                      then cell img (if nrows img = 1 then 0 else i - r)
                                    (if ncols img = 1 then 0 else j - r)
                      else cell c i j))"
    using assms unfolding centred_def by auto
  ultimately show ?thesis by blast
qed

lemma conv_input_fill:
  assumes "0 < r"
  shows "\<exists>c. conv_input_of junk img r ''fill'' fill = Inr c \<and> centred img r c"
  unfolding conv_input_of_def Let_def
  using first_centre[OF assms, of "setall (np_empty junk (nrows img + 2 * r) (ncols img + 2 * r)) fill" img]
  by (simp add: setall_def np_empty_def)

lemma conv_input_extend:
  assumes "0 < r"
  shows "\<exists>c. conv_input_of junk img r ''extend'' fill = Inr c \<and> centred img r c"
proof -
  let ?M = "nrows img" and ?N = "ncols img"
  obtain c1 where c1: "setslice (np_empty junk (?M + 2 * r) (?N + 2 * r)) (sl (int r) (- int r)) (sl (int r) (- int r)) img = Inr c1"
    "centred img r c1"
    using first_centre[OF assms, of "np_empty junk (?M + 2 * r) (?N + 2 * r)" img]
    by (auto simp: np_empty_def)
  have s1: "nrows c1 = ?M + 2 * r" "ncols c1 = ?N + 2 * r" using c1(2) by (simp_all add: centred_def)
  obtain c2 where c2: "setslice c1 (sl_to (int r)) sl_all (getslice c1 (sl (int r) (int r + 1)) sl_all) = Inr c2"
    "centred img r c2"
    using keeps_centre[OF c1(2), of "sl_to (int r)" 0 r sl_all 0 "?N + 2 * r" "getslice c1 (sl (int r) (int r + 1)) sl_all"] assms
    by (auto simp: s1 sb getslice_eq[of c1 _ r "r + 1" _ 0 "?N + 2 * r"])
  have s2: "nrows c2 = ?M + 2 * r" "ncols c2 = ?N + 2 * r" using c2(2) by (simp_all add: centred_def)
  obtain c3 where c3: "setslice c2 (sl_from (- int r)) sl_all (getslice c2 (sl (- int r - 1) (- int r)) sl_all) = Inr c3"
    "centred img r c3"
    using keeps_centre[OF c2(2), of "sl_from (- int r)" "?M + r" "?M + 2 * r" sl_all 0 "?N + 2 * r" "getslice c2 (sl (- int r - 1) (- int r)) sl_all"] assms
    by (auto simp: s2 sb getslice_eq[of c2 _ "?M + r - 1" "?M + r" _ 0 "?N + 2 * r"])
  have s3: "nrows c3 = ?M + 2 * r" "ncols c3 = ?N + 2 * r" using c3(2) by (simp_all add: centred_def)
  obtain c4 where c4: "setslice c3 sl_all (sl_to (int r)) (getslice c3 sl_all (sl (int r) (int r + 1))) = Inr c4"
    "centred img r c4"
    using keeps_centre[OF c3(2), of sl_all 0 "?M + 2 * r" "sl_to (int r)" 0 r "getslice c3 sl_all (sl (int r) (int r + 1))"] assms
    by (auto simp: s3 sb getslice_eq[of c3 _ 0 "?M + 2 * r" _ r "r + 1"])
  have s4: "nrows c4 = ?M + 2 * r" "ncols c4 = ?N + 2 * r" using c4(2) by (simp_all add: centred_def)
  obtain c5 where c5: "setslice c4 sl_all (sl_from (- int r)) (getslice c4 sl_all (sl (- int r - 1) (- int r))) = Inr c5"
    "centred img r c5"
    using keeps_centre[OF c4(2), of sl_all 0 "?M + 2 * r" "sl_from (- int r)" "?N + r" "?N + 2 * r" "getslice c4 sl_all (sl (- int r - 1) (- int r))"] assms
    by (auto simp: s4 sb getslice_eq[of c4 _ 0 "?M + 2 * r" _ "?N + r - 1" "?N + r"])
  show ?thesis
    unfolding conv_input_of_def Let_def
    using c1 c2 c3 c4 c5 by (simp add: then_exn_simps)
qed

lemma conv_input_mirror:
  assumes r: "0 < r"
  shows "\<exists>c. conv_input_of junk img r ''mirror'' fill = Inr c \<and> centred img r c \<and>
          (\<forall>t<r. \<forall>j<ncols img. t < nrows img \<longrightarrow>
              cell c (r - 1 - t) (r + j) = cell img t j \<and>
              cell c (nrows img + r + t) (r + j) = cell img (nrows img - 1 - t) j) \<and>
          (\<forall>t<r. \<forall>i<nrows img. t < ncols img \<longrightarrow>
              cell c (r + i) (r - 1 - t) = cell img i t \<and>
              cell c (r + i) (ncols img + r + t) = cell img i (ncols img - 1 - t))"
proof -
  let ?M = "nrows img" and ?N = "ncols img"
  let ?H = "?M + 2 * r" and ?W = "?N + 2 * r"
  define c0 where "c0 = np_empty junk ?H ?W"
  define c1 where "c1 = of_fun ?H ?W
      (\<lambda>i j. if r \<le> i \<and> i < ?M + r \<and> r \<le> j \<and> j < ?N + r
               then cell img (i - r) (j - r)
               else cell c0 i j)"
  define c2 where "c2 = of_fun ?H ?W (\<lambda>i j. if i < r then cell c1 (2 * r - 1 - i) j else cell c1 i j)"
  define c3 where "c3 = of_fun ?H ?W
      (\<lambda>i j. if ?M + r \<le> i then cell c2 (2 * ?M + 2 * r - 1 - i) j else cell c2 i j)"
  define c4 where "c4 = of_fun ?H ?W (\<lambda>i j. if j < r then cell c3 i (2 * r - 1 - j) else cell c3 i j)"
  define c5 where "c5 = of_fun ?H ?W
      (\<lambda>i j. if ?N + r \<le> j then cell c4 i (2 * ?N + 2 * r - 1 - j) else cell c4 i j)"
  have sh: "nrows c0 = ?H" "ncols c0 = ?W" "nrows c1 = ?H" "ncols c1 = ?W"
    "nrows c2 = ?H" "ncols c2 = ?W" "nrows c3 = ?H" "ncols c3 = ?W" "nrows c4 = ?H" "ncols c4 = ?W"
    by (simp_all add: c0_def c1_def c2_def c3_def c4_def np_empty_def)
  have e1: "setslice c0 (sl (int r) (- int r)) (sl (int r) (- int r)) img = Inr c1"
    unfolding c1_def sh(1,2)[symmetric]
    by (rule setslice_same) (use r in \<open>simp_all add: sh sb\<close>)
  have e2: "setslice c1 (sl_to (int r)) sl_all (np_flip0 (getslice c1 (sl (int r) (int r + int r)) sl_all)) = Inr c2"
    unfolding c2_def sh(3,4)[symmetric]
    by (rule setslice_same) (use r in \<open>auto simp: sh sb gs intro!: arg_cong2[where f="cell c1"]\<close>)
  have e3: "setslice c2 (sl_from (- int r)) sl_all (np_flip0 (getslice c2 (sl (- int r - int r) (- int r)) sl_all)) = Inr c3"
    unfolding c3_def sh(5,6)[symmetric]
    by (rule setslice_same) (use r in \<open>auto simp: sh sb gs intro!: arg_cong2[where f="cell c2"]\<close>)
  have e4: "setslice c3 sl_all (sl_to (int r)) (np_flip1 (getslice c3 sl_all (sl (int r) (int r + int r)))) = Inr c4"
    unfolding c4_def sh(7,8)[symmetric]
    by (rule setslice_same) (use r in \<open>auto simp: sh sb gs intro!: arg_cong2[where f="cell c3"]\<close>)
  have e5: "setslice c4 sl_all (sl_from (- int r)) (np_flip1 (getslice c4 sl_all (sl (- int r - int r) (- int r)))) = Inr c5"
    unfolding c5_def sh(9,10)[symmetric]
    by (rule setslice_same) (use r in \<open>auto simp: sh sb gs intro!: arg_cong2[where f="cell c4"]\<close>)
  have run: "conv_input_of junk img r ''mirror'' fill = Inr c5"
    unfolding conv_input_of_def Let_def
    using e1 e2 e3 e4 e5 by (simp add: then_exn_simps c0_def)
  have mid: "cell c5 (r + i) (r + j) = cell img i j" if "i < ?M" "j < ?N" for i j
    using that r by (auto simp: c5_def c4_def c3_def c2_def c1_def intro!: arg_cong2[where f="cell img"])
  have top: "cell c5 (r - 1 - t) (r + j) = cell img t j" if "t < r" "j < ?N" "t < ?M" for t j
    using that r by (auto simp: c5_def c4_def c3_def c2_def c1_def intro!: arg_cong2[where f="cell img"])
  have bot: "cell c5 (?M + r + t) (r + j) = cell img (?M - 1 - t) j" if "t < r" "j < ?N" "t < ?M" for t j
    using that r by (auto simp: c5_def c4_def c3_def c2_def c1_def intro!: arg_cong2[where f="cell img"])
  have left: "cell c5 (r + i) (r - 1 - t) = cell img i t" if "t < r" "i < ?M" "t < ?N" for t i
    using that r by (auto simp: c5_def c4_def c3_def c2_def c1_def intro!: arg_cong2[where f="cell img"])
  have right: "cell c5 (r + i) (?N + r + t) = cell img i (?N - 1 - t)" if "t < r" "i < ?M" "t < ?N" for t i
    using that r by (auto simp: c5_def c4_def c3_def c2_def c1_def intro!: arg_cong2[where f="cell img"])
  have "centred img r c5"
    unfolding centred_def using mid by (simp add: c5_def)
  with run top bot left right show ?thesis by blast
qed

lemma keeps_centre_rule:
  assumes "centred img r c"
    and "nrows src = snd (slice_bounds (nrows c) rs) - fst (slice_bounds (nrows c) rs) \<or> nrows src = 1"
    and "ncols src = snd (slice_bounds (ncols c) cs) - fst (slice_bounds (ncols c) cs) \<or> ncols src = 1"
    and "snd (slice_bounds (nrows c) rs) \<le> r \<or> nrows img + r \<le> fst (slice_bounds (nrows c) rs) \<or>
         snd (slice_bounds (ncols c) cs) \<le> r \<or> ncols img + r \<le> fst (slice_bounds (ncols c) cs)"
  shows "\<exists>c'. setslice c rs cs src = Inr c' \<and> centred img r c'"
  using assms
  by (intro keeps_centre[of _ _ _ _ "fst (slice_bounds (nrows c) rs)" "snd (slice_bounds (nrows c) rs)"
        _ "fst (slice_bounds (ncols c) cs)" "snd (slice_bounds (ncols c) cs)"]) auto

lemma centred_shape: "centred img r c \<Longrightarrow> nrows c = nrows img + 2 * r \<and> ncols c = ncols img + 2 * r"
  by (simp add: centred_def)

lemma conv_input_wrap:
  assumes r: "0 < r" and M: "r \<le> nrows img \<or> nrows img = 1" and N: "r \<le> ncols img \<or> ncols img = 1"
  shows "\<exists>c. conv_input_of junk img r ''wrap'' fill = Inr c \<and> centred img r c"
proof -
  let ?M = "nrows img" and ?N = "ncols img"
  let ?R = "int r"
  note simps = centred_shape sb sb_img_from sb_img_to gs
  obtain c1 where c1: "setslice (np_empty junk (?M + 2 * r) (?N + 2 * r)) (sl ?R (- ?R)) (sl ?R (- ?R)) img = Inr c1"
    "centred img r c1"
    using first_centre[OF r, of "np_empty junk (?M + 2 * r) (?N + 2 * r)" img]
    by (auto simp: np_empty_def)
  obtain c2 where c2: "setslice c1 (sl_to ?R) (sl ?R (- ?R)) (getslice img (sl_from (- ?R)) sl_all) = Inr c2"
    "centred img r c2"
    using keeps_centre_rule[OF c1(2), of "getslice img (sl_from (- ?R)) sl_all" "sl_to ?R" "sl ?R (- ?R)"] r M N c1(2)
    by (auto simp: simps)
  obtain c3 where c3: "setslice c2 (sl_from (- ?R)) (sl ?R (- ?R)) (getslice img (sl_to ?R) sl_all) = Inr c3"
    "centred img r c3"
    using keeps_centre_rule[OF c2(2), of "getslice img (sl_to ?R) sl_all" "sl_from (- ?R)" "sl ?R (- ?R)"] r M N c2(2)
    by (auto simp: simps)
  obtain c4 where c4: "setslice c3 (sl ?R (- ?R)) (sl_to ?R) (getslice img sl_all (sl_from (- ?R))) = Inr c4"
    "centred img r c4"
    using keeps_centre_rule[OF c3(2), of "getslice img sl_all (sl_from (- ?R))" "sl ?R (- ?R)" "sl_to ?R"] r M N c3(2)
    by (auto simp: simps)
  obtain c5 where c5: "setslice c4 (sl ?R (- ?R)) (sl_from (- ?R)) (getslice img sl_all (sl_to ?R)) = Inr c5"
    "centred img r c5"
    using keeps_centre_rule[OF c4(2), of "getslice img sl_all (sl_to ?R)" "sl ?R (- ?R)" "sl_from (- ?R)"] r M N c4(2)
    by (auto simp: simps)
  obtain c6 where c6: "setslice c5 (sl_to ?R) (sl_to ?R) (getslice img (sl_from (- ?R)) (sl_from (- ?R))) = Inr c6"
    "centred img r c6"
    using keeps_centre_rule[OF c5(2), of "getslice img (sl_from (- ?R)) (sl_from (- ?R))" "sl_to ?R" "sl_to ?R"] r M N c5(2)
    by (auto simp: simps)
  obtain c7 where c7: "setslice c6 (sl_to ?R) (sl_from (- ?R)) (getslice img (sl_from (- ?R)) (sl_to ?R)) = Inr c7"
    "centred img r c7"
    using keeps_centre_rule[OF c6(2), of "getslice img (sl_from (- ?R)) (sl_to ?R)" "sl_to ?R" "sl_from (- ?R)"] r M N c6(2)
    by (auto simp: simps)
  obtain c8 where c8: "setslice c7 (sl_from (- ?R)) (sl_to ?R) (getslice img (sl_to ?R) (sl_from (- ?R))) = Inr c8"
    "centred img r c8"
    using keeps_centre_rule[OF c7(2), of "getslice img (sl_to ?R) (sl_from (- ?R))" "sl_from (- ?R)" "sl_to ?R"] r M N c7(2)
    by (auto simp: simps)
  obtain c9 where c9: "setslice c8 (sl_from (- ?R)) (sl_from (- ?R)) (getslice img (sl_to ?R) (sl_to ?R)) = Inr c9"
    "centred img r c9"
    using keeps_centre_rule[OF c8(2), of "getslice img (sl_to ?R) (sl_to ?R)" "sl_from (- ?R)" "sl_from (- ?R)"] r M N c8(2)
    by (auto simp: simps)
  show ?thesis
    unfolding conv_input_of_def Let_def
    using c1 c2 c3 c4 c5 c6 c7 c8 c9 by (simp add: then_exn_simps)
qed

lemma impulse_shape [simp]: "nrows (impulse r) = Suc (2 * r)" "ncols (impulse r) = Suc (2 * r)"
  by (simp_all add: impulse_def)

lemma conv_at_impulse:
  assumes "r \<le> v" "r \<le> u"
  shows "conv_at g (impulse r) r v u = cell g v u"
proof -
  have k: "cell (impulse r) (2 * r - a) (2 * r - b) = (if a = r \<and> b = r then 1 else 0)"
    if "a \<le> 2 * r" "b \<le> 2 * r" for a b
    using that by (auto simp: impulse_def)
  have "conv_at g (impulse r) r v u =
        (\<Sum>a\<le>2 * r. \<Sum>b\<le>2 * r. if a = r \<and> b = r then cell g (v - r + a) (u - r + b) else 0)"
    unfolding conv_at_def by (intro sum.cong refl) (simp add: k)
  also have "\<dots> = (\<Sum>a\<le>2 * r. if a = r then (\<Sum>b\<le>2 * r. if b = r then cell g (v - r + a) (u - r + b) else 0) else 0)"
    by (intro sum.cong refl) simp
  also have "\<dots> = (\<Sum>b\<le>2 * r. if b = r then cell g (v - r + r) (u - r + b) else 0)"
    by (simp add: sum.delta)
  also have "\<dots> = cell g (v - r + r) (u - r + r)"
    by (simp add: sum.delta)
  finally show ?thesis using assms by simp
qed

lemma padded_identity:
  assumes "wf_arr img" "0 < r" "centred img r c"
  shows "then_exn (convolve c (impulse r)) (\<lambda>conv_out.
           Inr (getslice conv_out (sl (int r) (- int r)) (sl (int r) (- int r)))) = Inr img"
proof -
  let ?M = "nrows img" and ?N = "ncols img"
  let ?out = "of_fun (nrows c) (ncols c)
               (\<lambda>v u. if r \<le> v \<and> v + r < nrows c \<and> r \<le> u \<and> u + r < ncols c
                      then conv_at c (impulse r) r v u else 0)"
  have sh: "nrows c = ?M + 2 * r" "ncols c = ?N + 2 * r"
    using assms(3) by (simp_all add: centred_def)
  have conv: "convolve c (impulse r) = Inr ?out"
    by (rule convolve_closed) simp_all
  have "getslice ?out (sl (int r) (- int r)) (sl (int r) (- int r)) = img"
  proof (rule ndarray_eqI)
    fix i j
    assume "i < nrows (getslice ?out (sl (int r) (- int r)) (sl (int r) (- int r)))"
      and "j < ncols (getslice ?out (sl (int r) (- int r)) (sl (int r) (- int r)))"
    then have ij: "i < ?M" "j < ?N"
      using assms(2) by (simp_all add: gs sh sb)
    then have "cell (getslice ?out (sl (int r) (- int r)) (sl (int r) (- int r))) i j = cell ?out (r + i) (r + j)"
      using assms(2) by (simp add: gs sh sb)
    also have "\<dots> = conv_at c (impulse r) r (r + i) (r + j)"
      using ij by (simp add: sh)
    also have "\<dots> = cell c (r + i) (r + j)"
      by (rule conv_at_impulse) simp_all
    also have "\<dots> = cell img i j"
      using assms(3) ij by (simp add: centred_def)
    finally show "cell (getslice ?out (sl (int r) (- int r)) (sl (int r) (- int r))) i j = cell img i j" .
  qed (use assms in \<open>simp_all add: gs sh sb getslice_def split_beta\<close>)
  then show ?thesis by (simp add: conv then_exn_simps)
qed

lemma convolve2d_padded:
  assumes "boundary_mode \<noteq> ''valid''"
    and "conv_input_of junk img (nrows kern div 2) boundary_mode fill = Inr c"
  shows "convolve2d junk img kern boundary_mode fill =
         then_exn (convolve c kern) (\<lambda>conv_out.
           Inr (getslice conv_out (sl (int (nrows kern div 2)) (- int (nrows kern div 2)))
                                  (sl (int (nrows kern div 2)) (- int (nrows kern div 2)))))"
  using assms by (simp add: convolve2d_def then_exn_simps Let_def)

lemma convolve2d_impulse_padded:
  assumes "wf_arr img" "0 < r"
    and "\<exists>c. conv_input_of junk img r boundary_mode fill = Inr c \<and> centred img r c"
    and "boundary_mode \<noteq> ''valid''"
  shows "convolve2d junk img (impulse r) boundary_mode fill = Inr img"
proof -
  from assms(3) obtain c where c: "conv_input_of junk img r boundary_mode fill = Inr c" "centred img r c"
    by blast
  have r: "nrows (impulse r) div 2 = r" by simp
  have "convolve2d junk img (impulse r) boundary_mode fill =
         then_exn (convolve c (impulse r)) (\<lambda>conv_out.
           Inr (getslice conv_out (sl (int r) (- int r)) (sl (int r) (- int r))))"
    using convolve2d_padded[of boundary_mode junk img "impulse r" fill c] assms(4) c(1)
    unfolding r by blast
  then show ?thesis
    using padded_identity[OF assms(1,2) c(2)] by simp
qed

lemma convolve2d_impulse_valid:
  "convolve2d junk img (impulse r) ''valid'' fill =
     Inr (of_fun (nrows img) (ncols img)
           (\<lambda>v u. if r \<le> v \<and> v + r < nrows img \<and> r \<le> u \<and> u + r < ncols img
                  then cell img v u else 0))"
proof -
  have "convolve img (impulse r) = Inr (of_fun (nrows img) (ncols img)
               (\<lambda>v u. if r \<le> v \<and> v + r < nrows img \<and> r \<le> u \<and> u + r < ncols img
                      then conv_at img (impulse r) r v u else 0))"
    by (rule convolve_closed) simp_all
  also have "of_fun (nrows img) (ncols img)
               (\<lambda>v u. if r \<le> v \<and> v + r < nrows img \<and> r \<le> u \<and> u + r < ncols img
                      then conv_at img (impulse r) r v u else 0)
           = of_fun (nrows img) (ncols img)
           (\<lambda>v u. if r \<le> v \<and> v + r < nrows img \<and> r \<le> u \<and> u + r < ncols img
                  then cell img v u else 0)"
    by (rule of_fun_cong) (simp add: conv_at_impulse)
  finally show ?thesis by (simp add: convolve2d_def)
qed

section \<open>The padded array in closed form\<close>

text \<open>
  Where the image is large enough for the slices that a mode copies, every cell of
  \<open>conv_input\<close> is written before it is read, and the padded array is a function of
  the image alone.
\<close>

lemma conv_input_fill_closed:
  assumes r: "0 < r"
  shows "conv_input_of junk img r ''fill'' fill =
         Inr (of_fun (nrows img + 2 * r) (ncols img + 2 * r)
               (\<lambda>i j. if r \<le> i \<and> i < nrows img + r \<and> r \<le> j \<and> j < ncols img + r
                      then cell img (i - r) (j - r) else fill))"
proof -
  let ?M = "nrows img" and ?N = "ncols img"
  let ?H = "?M + 2 * r" and ?W = "?N + 2 * r"
  define c0 where "c0 = setall (np_empty junk ?H ?W) fill"
  have sh: "nrows c0 = ?H" "ncols c0 = ?W"
    by (simp_all add: c0_def setall_def np_empty_def)
  have "setslice c0 (sl (int r) (- int r)) (sl (int r) (- int r)) img =
        Inr (of_fun (nrows c0) (ncols c0)
               (\<lambda>i j. if r \<le> i \<and> i < nrows img + r \<and> r \<le> j \<and> j < ncols img + r
                      then cell img (i - r) (j - r) else fill))"
    by (rule setslice_same) (use r in \<open>simp_all add: sh sb c0_def setall_def np_empty_def\<close>)
  then show ?thesis
    unfolding conv_input_of_def Let_def by (simp add: c0_def[symmetric] sh)
qed

lemma conv_input_extend_closed:
  assumes r: "0 < r" and M: "0 < nrows img" and N: "0 < ncols img"
  shows "conv_input_of junk img r ''extend'' fill =
         Inr (of_fun (nrows img + 2 * r) (ncols img + 2 * r)
               (\<lambda>i j. cell img (min (i - r) (nrows img - 1)) (min (j - r) (ncols img - 1))))"
proof -
  let ?M = "nrows img" and ?N = "ncols img"
  let ?H = "?M + 2 * r" and ?W = "?N + 2 * r"
  define c0 where "c0 = np_empty junk ?H ?W"
  define c1 where "c1 = of_fun ?H ?W
      (\<lambda>i j. if r \<le> i \<and> i < ?M + r \<and> r \<le> j \<and> j < ?N + r
               then cell img (i - r) (j - r)
               else cell c0 i j)"
  define c2 where "c2 = of_fun ?H ?W (\<lambda>i j. if i < r then cell c1 r j else cell c1 i j)"
  define c3 where "c3 = of_fun ?H ?W (\<lambda>i j. if ?M + r \<le> i then cell c2 (?M + r - 1) j else cell c2 i j)"
  define c4 where "c4 = of_fun ?H ?W (\<lambda>i j. if j < r then cell c3 i r else cell c3 i j)"
  define c5 where "c5 = of_fun ?H ?W (\<lambda>i j. if ?N + r \<le> j then cell c4 i (?N + r - 1) else cell c4 i j)"
  have sh: "nrows c0 = ?H" "ncols c0 = ?W" "nrows c1 = ?H" "ncols c1 = ?W"
    "nrows c2 = ?H" "ncols c2 = ?W" "nrows c3 = ?H" "ncols c3 = ?W" "nrows c4 = ?H" "ncols c4 = ?W"
    by (simp_all add: c0_def c1_def c2_def c3_def c4_def np_empty_def)
  have e1: "setslice c0 (sl (int r) (- int r)) (sl (int r) (- int r)) img = Inr c1"
    unfolding c1_def sh(1,2)[symmetric]
    by (rule setslice_same) (use r in \<open>simp_all add: sh sb\<close>)
  have e2: "setslice c1 (sl_to (int r)) sl_all (getslice c1 (sl (int r) (int r + 1)) sl_all) = Inr c2"
    unfolding c2_def sh(3,4)[symmetric]
    by (rule setslice_rule) (use r in \<open>auto simp: sh sb gs\<close>)
  have e3: "setslice c2 (sl_from (- int r)) sl_all (getslice c2 (sl (- int r - 1) (- int r)) sl_all) = Inr c3"
    unfolding c3_def sh(5,6)[symmetric]
    by (rule setslice_rule) (use r in \<open>auto simp: sh sb gs\<close>)
  have e4: "setslice c3 sl_all (sl_to (int r)) (getslice c3 sl_all (sl (int r) (int r + 1))) = Inr c4"
    unfolding c4_def sh(7,8)[symmetric]
    by (rule setslice_rule) (use r in \<open>auto simp: sh sb gs\<close>)
  have e5: "setslice c4 sl_all (sl_from (- int r)) (getslice c4 sl_all (sl (- int r - 1) (- int r))) = Inr c5"
    unfolding c5_def sh(9,10)[symmetric]
    by (rule setslice_rule) (use r in \<open>auto simp: sh sb gs\<close>)
  have run: "conv_input_of junk img r ''extend'' fill = Inr c5"
    unfolding conv_input_of_def Let_def
    using e1 e2 e3 e4 e5 by (simp add: then_exn_simps c0_def)
  have "c5 = of_fun ?H ?W (\<lambda>i j. cell img (min (i - r) (?M - 1)) (min (j - r) (?N - 1)))"
    unfolding c5_def
    by (rule of_fun_cong)
       (use r M N in \<open>auto simp: c4_def c3_def c2_def c1_def intro!: arg_cong2[where f="cell img"]\<close>)
  with run show ?thesis by simp
qed

lemma conv_input_mirror_closed:
  assumes r: "0 < r" and M: "r \<le> nrows img" and N: "r \<le> ncols img"
  shows "conv_input_of junk img r ''mirror'' fill =
         Inr (of_fun (nrows img + 2 * r) (ncols img + 2 * r)
               (\<lambda>i j. cell img
                  (if i < r then r - 1 - i else if i < nrows img + r then i - r
                   else 2 * nrows img + r - 1 - i)
                  (if j < r then r - 1 - j else if j < ncols img + r then j - r
                   else 2 * ncols img + r - 1 - j)))"
proof -
  let ?M = "nrows img" and ?N = "ncols img"
  let ?H = "?M + 2 * r" and ?W = "?N + 2 * r"
  define c0 where "c0 = np_empty junk ?H ?W"
  define c1 where "c1 = of_fun ?H ?W
      (\<lambda>i j. if r \<le> i \<and> i < ?M + r \<and> r \<le> j \<and> j < ?N + r
               then cell img (i - r) (j - r)
               else cell c0 i j)"
  define c2 where "c2 = of_fun ?H ?W (\<lambda>i j. if i < r then cell c1 (2 * r - 1 - i) j else cell c1 i j)"
  define c3 where "c3 = of_fun ?H ?W
      (\<lambda>i j. if ?M + r \<le> i then cell c2 (2 * ?M + 2 * r - 1 - i) j else cell c2 i j)"
  define c4 where "c4 = of_fun ?H ?W (\<lambda>i j. if j < r then cell c3 i (2 * r - 1 - j) else cell c3 i j)"
  define c5 where "c5 = of_fun ?H ?W
      (\<lambda>i j. if ?N + r \<le> j then cell c4 i (2 * ?N + 2 * r - 1 - j) else cell c4 i j)"
  have sh: "nrows c0 = ?H" "ncols c0 = ?W" "nrows c1 = ?H" "ncols c1 = ?W"
    "nrows c2 = ?H" "ncols c2 = ?W" "nrows c3 = ?H" "ncols c3 = ?W" "nrows c4 = ?H" "ncols c4 = ?W"
    by (simp_all add: c0_def c1_def c2_def c3_def c4_def np_empty_def)
  have e1: "setslice c0 (sl (int r) (- int r)) (sl (int r) (- int r)) img = Inr c1"
    unfolding c1_def sh(1,2)[symmetric]
    by (rule setslice_same) (use r in \<open>simp_all add: sh sb\<close>)
  have e2: "setslice c1 (sl_to (int r)) sl_all (np_flip0 (getslice c1 (sl (int r) (int r + int r)) sl_all)) = Inr c2"
    unfolding c2_def sh(3,4)[symmetric]
    by (rule setslice_same) (use r in \<open>auto simp: sh sb gs intro!: arg_cong2[where f="cell c1"]\<close>)
  have e3: "setslice c2 (sl_from (- int r)) sl_all (np_flip0 (getslice c2 (sl (- int r - int r) (- int r)) sl_all)) = Inr c3"
    unfolding c3_def sh(5,6)[symmetric]
    by (rule setslice_same) (use r in \<open>auto simp: sh sb gs intro!: arg_cong2[where f="cell c2"]\<close>)
  have e4: "setslice c3 sl_all (sl_to (int r)) (np_flip1 (getslice c3 sl_all (sl (int r) (int r + int r)))) = Inr c4"
    unfolding c4_def sh(7,8)[symmetric]
    by (rule setslice_same) (use r in \<open>auto simp: sh sb gs intro!: arg_cong2[where f="cell c3"]\<close>)
  have e5: "setslice c4 sl_all (sl_from (- int r)) (np_flip1 (getslice c4 sl_all (sl (- int r - int r) (- int r)))) = Inr c5"
    unfolding c5_def sh(9,10)[symmetric]
    by (rule setslice_same) (use r in \<open>auto simp: sh sb gs intro!: arg_cong2[where f="cell c4"]\<close>)
  have run: "conv_input_of junk img r ''mirror'' fill = Inr c5"
    unfolding conv_input_of_def Let_def
    using e1 e2 e3 e4 e5 by (simp add: then_exn_simps c0_def)
  have "c5 = of_fun ?H ?W
               (\<lambda>i j. cell img
                  (if i < r then r - 1 - i else if i < ?M + r then i - r else 2 * ?M + r - 1 - i)
                  (if j < r then r - 1 - j else if j < ?N + r then j - r else 2 * ?N + r - 1 - j))"
    unfolding c5_def
    by (rule of_fun_cong)
       (use r M N in \<open>auto simp: c4_def c3_def c2_def c1_def intro!: arg_cong2[where f="cell img"]\<close>)
  with run show ?thesis by simp
qed

lemma conv_input_wrap_closed:
  assumes r: "0 < r" and M: "r \<le> nrows img" and N: "r \<le> ncols img"
  shows "conv_input_of junk img r ''wrap'' fill =
         Inr (of_fun (nrows img + 2 * r) (ncols img + 2 * r)
               (\<lambda>i j. cell img
                  (if i < r then nrows img - r + i else if i < nrows img + r then i - r
                   else i - nrows img - r)
                  (if j < r then ncols img - r + j else if j < ncols img + r then j - r
                   else j - ncols img - r)))"
proof -
  let ?M = "nrows img" and ?N = "ncols img"
  let ?H = "?M + 2 * r" and ?W = "?N + 2 * r"
  let ?R = "int r"
  define c0 where "c0 = np_empty junk ?H ?W"
  define c1 where "c1 = of_fun ?H ?W
      (\<lambda>i j. if r \<le> i \<and> i < ?M + r \<and> r \<le> j \<and> j < ?N + r
               then cell img (i - r) (j - r) else cell c0 i j)"
  define c2 where "c2 = of_fun ?H ?W
      (\<lambda>i j. if i < r \<and> r \<le> j \<and> j < ?N + r then cell img (?M - r + i) (j - r) else cell c1 i j)"
  define c3 where "c3 = of_fun ?H ?W
      (\<lambda>i j. if ?M + r \<le> i \<and> r \<le> j \<and> j < ?N + r then cell img (i - ?M - r) (j - r) else cell c2 i j)"
  define c4 where "c4 = of_fun ?H ?W
      (\<lambda>i j. if r \<le> i \<and> i < ?M + r \<and> j < r then cell img (i - r) (?N - r + j) else cell c3 i j)"
  define c5 where "c5 = of_fun ?H ?W
      (\<lambda>i j. if r \<le> i \<and> i < ?M + r \<and> ?N + r \<le> j then cell img (i - r) (j - ?N - r) else cell c4 i j)"
  define c6 where "c6 = of_fun ?H ?W
      (\<lambda>i j. if i < r \<and> j < r then cell img (?M - r + i) (?N - r + j) else cell c5 i j)"
  define c7 where "c7 = of_fun ?H ?W
      (\<lambda>i j. if i < r \<and> ?N + r \<le> j then cell img (?M - r + i) (j - ?N - r) else cell c6 i j)"
  define c8 where "c8 = of_fun ?H ?W
      (\<lambda>i j. if ?M + r \<le> i \<and> j < r then cell img (i - ?M - r) (?N - r + j) else cell c7 i j)"
  define c9 where "c9 = of_fun ?H ?W
      (\<lambda>i j. if ?M + r \<le> i \<and> ?N + r \<le> j then cell img (i - ?M - r) (j - ?N - r) else cell c8 i j)"
  have sh: "nrows c0 = ?H" "ncols c0 = ?W" "nrows c1 = ?H" "ncols c1 = ?W"
    "nrows c2 = ?H" "ncols c2 = ?W" "nrows c3 = ?H" "ncols c3 = ?W" "nrows c4 = ?H" "ncols c4 = ?W"
    "nrows c5 = ?H" "ncols c5 = ?W" "nrows c6 = ?H" "ncols c6 = ?W" "nrows c7 = ?H" "ncols c7 = ?W"
    "nrows c8 = ?H" "ncols c8 = ?W"
    by (simp_all add: c0_def c1_def c2_def c3_def c4_def c5_def c6_def c7_def c8_def np_empty_def)
  note simps = sh sb sb_img_from sb_img_to gs
  have e1: "setslice c0 (sl ?R (- ?R)) (sl ?R (- ?R)) img = Inr c1"
    unfolding c1_def sh(1,2)[symmetric]
    by (rule setslice_same) (use r in \<open>simp_all add: sh sb\<close>)
  have e2: "setslice c1 (sl_to ?R) (sl ?R (- ?R)) (getslice img (sl_from (- ?R)) sl_all) = Inr c2"
    unfolding c2_def sh(3,4)[symmetric]
    by (rule setslice_same) (use r M N in \<open>auto simp: simps intro!: arg_cong2[where f="cell img"]\<close>)
  have e3: "setslice c2 (sl_from (- ?R)) (sl ?R (- ?R)) (getslice img (sl_to ?R) sl_all) = Inr c3"
    unfolding c3_def sh(5,6)[symmetric]
    by (rule setslice_same) (use r M N in \<open>auto simp: simps intro!: arg_cong2[where f="cell img"]\<close>)
  have e4: "setslice c3 (sl ?R (- ?R)) (sl_to ?R) (getslice img sl_all (sl_from (- ?R))) = Inr c4"
    unfolding c4_def sh(7,8)[symmetric]
    by (rule setslice_same) (use r M N in \<open>auto simp: simps intro!: arg_cong2[where f="cell img"]\<close>)
  have e5: "setslice c4 (sl ?R (- ?R)) (sl_from (- ?R)) (getslice img sl_all (sl_to ?R)) = Inr c5"
    unfolding c5_def sh(9,10)[symmetric]
    by (rule setslice_same) (use r M N in \<open>auto simp: simps intro!: arg_cong2[where f="cell img"]\<close>)
  have e6: "setslice c5 (sl_to ?R) (sl_to ?R) (getslice img (sl_from (- ?R)) (sl_from (- ?R))) = Inr c6"
    unfolding c6_def sh(11,12)[symmetric]
    by (rule setslice_same) (use r M N in \<open>auto simp: simps intro!: arg_cong2[where f="cell img"]\<close>)
  have e7: "setslice c6 (sl_to ?R) (sl_from (- ?R)) (getslice img (sl_from (- ?R)) (sl_to ?R)) = Inr c7"
    unfolding c7_def sh(13,14)[symmetric]
    by (rule setslice_same) (use r M N in \<open>auto simp: simps intro!: arg_cong2[where f="cell img"]\<close>)
  have e8: "setslice c7 (sl_from (- ?R)) (sl_to ?R) (getslice img (sl_to ?R) (sl_from (- ?R))) = Inr c8"
    unfolding c8_def sh(15,16)[symmetric]
    by (rule setslice_same) (use r M N in \<open>auto simp: simps intro!: arg_cong2[where f="cell img"]\<close>)
  have e9: "setslice c8 (sl_from (- ?R)) (sl_from (- ?R)) (getslice img (sl_to ?R) (sl_to ?R)) = Inr c9"
    unfolding c9_def sh(17,18)[symmetric]
    by (rule setslice_same) (use r M N in \<open>auto simp: simps intro!: arg_cong2[where f="cell img"]\<close>)
  have run: "conv_input_of junk img r ''wrap'' fill = Inr c9"
    unfolding conv_input_of_def Let_def
    using e1 e2 e3 e4 e5 e6 e7 e8 e9 by (simp add: then_exn_simps c0_def)
  have "c9 = of_fun ?H ?W
               (\<lambda>i j. cell img
                  (if i < r then ?M - r + i else if i < ?M + r then i - r else i - ?M - r)
                  (if j < r then ?N - r + j else if j < ?N + r then j - r else j - ?N - r))"
    unfolding c9_def
    by (rule of_fun_cong)
       (use r M N in \<open>auto simp: c8_def c7_def c6_def c5_def c4_def c3_def c2_def c1_def intro!: arg_cong2[where f="cell img"]\<close>)
  with run show ?thesis by simp
qed

section \<open>The scan of the maxima extractor\<close>

lemma maxima_cols_closed:
  "maxima_cols im threshold k js points =
     points @ concat (map (\<lambda>j. if body_test im threshold k j then [(int j, int k, cell im k j)] else []) js)"
  by (induction js arbitrary: points) (auto simp: body_test_def Let_def)

lemma maxima_rows_closed:
  "maxima_rows im threshold ks js points =
     points @ concat (map (\<lambda>k. concat (map (\<lambda>j.
        if body_test im threshold k j then [(int j, int k, cell im k j)] else []) js)) ks)"
  by (induction ks arbitrary: points) (simp_all add: maxima_cols_closed)

lemma all_gt_of_fun: "all_gt p (of_fun m n f) \<longleftrightarrow> (\<forall>i<m. \<forall>j<n. f i j < p)"
  by (auto simp: all_gt_def of_fun_def list_all_iff)

lemma all_less_3: "(\<forall>b<3. P b) \<longleftrightarrow> P 0 \<and> P 1 \<and> P (2::nat)"
  by (auto simp: numeral_3_eq_3 numeral_2_eq_2 less_Suc_eq)

lemma row_above:
  assumes "1 \<le> k" "k < nrows im" "1 \<le> j" "j + 1 < ncols im"
  shows "getslice im (sl (int k - 1) (int k)) (sl (int j - 1) (int j + 2))
       = of_fun 1 3 (\<lambda>a b. cell im (k - 1 + a) (j - 1 + b))"
proof -
  have "slice_bounds (nrows im) (sl (int k - 1) (int k)) = (k - 1, k)"
    using assms by (auto simp: slice_bounds_def clip_def)
  moreover have "slice_bounds (ncols im) (sl (int j - 1) (int j + 2)) = (j - 1, j + 2)"
    using assms by (auto simp: slice_bounds_def clip_def)
  moreover have "k - (k - 1) = 1" "j + 2 - (j - 1) = 3" using assms by auto
  ultimately show ?thesis by (simp add: getslice_def)
qed

lemma row_below:
  assumes "k + 1 < nrows im" "1 \<le> j" "j + 1 < ncols im"
  shows "getslice im (sl (int k + 1) (int k + 2)) (sl (int j - 1) (int j + 2))
       = of_fun 1 3 (\<lambda>a b. cell im (k + 1 + a) (j - 1 + b))"
proof -
  have "slice_bounds (nrows im) (sl (int k + 1) (int k + 2)) = (k + 1, k + 2)"
    using assms by (auto simp: slice_bounds_def clip_def)
  moreover have "slice_bounds (ncols im) (sl (int j - 1) (int j + 2)) = (j - 1, j + 2)"
    using assms by (auto simp: slice_bounds_def clip_def)
  moreover have "j + 2 - (j - 1) = 3" using assms by auto
  ultimately show ?thesis by (simp add: getslice_def)
qed

lemma left_right:
  assumes "1 \<le> j" "j + 1 < ncols im"
  shows "getrow_step im k (sl (int j - 1) (int j + 2)) 2 = [cell im k (j - 1), cell im k (j + 1)]"
proof -
  have b: "slice_bounds (ncols im) (sl (int j - 1) (int j + 2)) = (j - 1, j + 2)"
    using assms by (auto simp: slice_bounds_def clip_def)
  obtain i where j: "j = Suc i" using assms(1) by (cases j) auto
  have "[j - 1 ..< j + 2] = [i, Suc i, Suc (Suc i)]"
    unfolding j by (simp add: upt_conv_Cons)
  then show ?thesis
    unfolding getrow_step_def b by (simp add: j)
qed

lemma body_test_iff:
  assumes "1 \<le> k" "k + 1 < nrows im" "1 \<le> j" "j + 1 < ncols im"
  shows "body_test im threshold k j \<longleftrightarrow> strict_peak im threshold k j"
proof -
  have "k < nrows im" using assms by simp
  then show ?thesis
    unfolding body_test_def strict_peak_def neighbours8_def
    using assms
    by (auto simp: row_above row_below left_right all_gt_of_fun all_less_3)
qed

lemma concat_if_singleton:
  "concat (map (\<lambda>j. if P j then [f j] else []) js) = map f (filter P js)"
  by (induction js) auto

lemma scan_as_filter:
  "concat (map (\<lambda>k. concat (map (\<lambda>j. if P k j then [f k j] else []) js)) ks)
     = map (\<lambda>(k, j). f k j) (filter (\<lambda>(k, j). P k j) (List.product ks js))"
  by (induction ks) (simp_all add: concat_if_singleton filter_map comp_def)

lemma interior_cells_iff:
  "(k, j) \<in> set (interior_cells im) \<longleftrightarrow> 1 \<le> k \<and> k + 1 < nrows im \<and> 1 \<le> j \<and> j + 1 < ncols im"
  by (auto simp: interior_cells_def)

lemma get_maxima_unsorted:
  "get_maxima im threshold False =
     map (\<lambda>(k, j). (int j, int k, cell im k j))
         (filter (\<lambda>(k, j). strict_peak im threshold k j) (interior_cells im))"
proof -
  have "get_maxima im threshold False =
     map (\<lambda>(k, j). (int j, int k, cell im k j))
         (filter (\<lambda>(k, j). body_test im threshold k j) (interior_cells im))"
    by (simp add: get_maxima_def maxima_rows_closed scan_as_filter interior_cells_def)
  also have "filter (\<lambda>(k, j). body_test im threshold k j) (interior_cells im)
           = filter (\<lambda>(k, j). strict_peak im threshold k j) (interior_cells im)"
    by (rule filter_cong) (auto simp: interior_cells_iff body_test_iff)
  finally show ?thesis .
qed

lemma get_maxima_sorted: "get_maxima im threshold True = sort_desc (get_maxima im threshold False)"
  by (simp add: get_maxima_def)

lemma set_get_maxima: "set (get_maxima im threshold s) = set (get_maxima im threshold False)"
  by (cases s) (simp_all add: get_maxima_sorted sort_desc_def)

lemma distinct_interior: "distinct (interior_cells im)"
  unfolding interior_cells_def by (simp add: distinct_product)

lemma get_maxima_mem:
  "(u, v, p) \<in> set (get_maxima im threshold s) \<longleftrightarrow>
     (\<exists>k j. u = int j \<and> v = int k \<and> p = cell im k j
            \<and> 1 \<le> k \<and> k + 1 < nrows im \<and> 1 \<le> j \<and> j + 1 < ncols im
            \<and> strict_peak im threshold k j)"
  unfolding set_get_maxima get_maxima_unsorted
  by (auto simp: interior_cells_iff image_iff)

lemma distinct_get_maxima: "distinct (get_maxima im threshold s)"
proof -
  have "distinct (get_maxima im threshold False)"
    unfolding get_maxima_unsorted
    by (rule distinct_map[THEN iffD2]) (auto simp: distinct_interior inj_on_def)
  then show ?thesis
    by (cases s) (simp_all add: get_maxima_sorted sort_desc_def)
qed

lemma sorted_desc:
  "sorted_wrt (\<lambda>a b. snd (snd a) \<ge> snd (snd b)) (sort_desc points)"
proof -
  have "sorted (map (\<lambda>v. - snd (snd v)) (sort_desc points))"
    unfolding sort_desc_def by (rule sorted_sort_key)
  then show ?thesis
    by (simp add: sorted_map sorted_wrt_iff_nth_less)
qed

lemma neighbour_mem:
  assumes "1 \<le> k" "1 \<le> j" "\<bar>int k - int k'\<bar> \<le> 1" "\<bar>int j - int j'\<bar> \<le> 1" "(k', j') \<noteq> (k, j)"
  shows "(k', j') \<in> set (neighbours8 k j)"
proof -
  have "k' = k - 1 \<or> k' = k \<or> k' = k + 1" using assms(1,3) by auto
  moreover have "j' = j - 1 \<or> j' = j \<or> j' = j + 1" using assms(2,4) by auto
  ultimately show ?thesis using assms(5) by (auto simp: neighbours8_def)
qed

section \<open>The loops of the brute-force selector\<close>

lemma rmin_loop_fold:
  "rmin_loop fl i u v h c xs rmin =
     fold min (map (\<lambda>(k, uu, vv, hh). euclid fl u v uu vv)
                   (filter (\<lambda>(k, uu, vv, hh). i \<noteq> k \<and> h < fl_round fl (c * hh)) xs)) rmin"
proof (induction xs arbitrary: rmin)
  case Nil
  then show ?case by simp
next
  case (Cons x xs)
  obtain k uu vv hh where x: "x = (k, uu, vv, hh)" by (cases x) auto
  show ?case
  proof (cases "i \<noteq> k \<and> h < fl_round fl (c * hh)")
    case True
    then have "(if i \<noteq> k \<and> h < fl_round fl (c * hh) \<and> euclid fl u v uu vv < rmin
                then euclid fl u v uu vv else rmin)
               = min (euclid fl u v uu vv) rmin"
      by (simp add: min_def)
    then show ?thesis using True by (simp add: x Cons.IH)
  next
    case False
    then have "(if i \<noteq> k \<and> h < fl_round fl (c * hh) \<and> euclid fl u v uu vv < rmin
                then euclid fl u v uu vv else rmin) = rmin"
      by auto
    then show ?thesis using False by (auto simp: x Cons.IH)
  qed
qed

lemma rmin_loop_Min:
  "rmin_loop fl i u v h c xs rmin =
     Min (insert rmin ((\<lambda>(k, uu, vv, hh). euclid fl u v uu vv) `
            {x \<in> set xs. case x of (k, uu, vv, hh) \<Rightarrow> i \<noteq> k \<and> h < fl_round fl (c * hh)}))"
proof -
  let ?ds = "map (\<lambda>(k, uu, vv, hh). euclid fl u v uu vv)
                   (filter (\<lambda>(k, uu, vv, hh). i \<noteq> k \<and> h < fl_round fl (c * hh)) xs)"
  have "rmin_loop fl i u v h c xs rmin = fold min ?ds rmin" by (rule rmin_loop_fold)
  also have "\<dots> = Min (set (rmin # ?ds))" by (simp only: Min.set_eq_fold)
  also have "set (rmin # ?ds) = insert rmin ((\<lambda>(k, uu, vv, hh). euclid fl u v uu vv) `
            {x \<in> set xs. case x of (k, uu, vv, hh) \<Rightarrow> i \<noteq> k \<and> h < fl_round fl (c * hh)})"
    by simp
  finally show ?thesis .
qed

lemma dist_place:
  "dist (place (u, v, h)) (place (uu, vv, hh)) = sqrt (real_of_int ((u - uu)\<^sup>2 + (v - vv)\<^sup>2))"
  by (simp add: place_def dist_norm cmod_def)

lemma euclid_place:
  "euclid fl (fst a) (fst (snd a)) (fst b) (fst (snd b)) = fl_round fl (dist (place a) (place b))"
  by (cases a, cases b) (simp add: euclid_def dist_place)

lemma qualifying_image:
  assumes "i < length maxima" "maxima ! i = (u, v, h)"
  shows "(\<lambda>(k, uu, vv, hh). euclid fl u v uu vv) `
            {x \<in> set (enumerate 0 maxima).
               case x of (k, uu, vv, hh) \<Rightarrow> i \<noteq> k \<and> h < fl_round fl (c * hh)}
         = fl_round fl ` (\<lambda>k. dist (place (maxima ! i)) (place (maxima ! k))) ` stronger fl maxima c i"
proof -
  have "{x \<in> set (enumerate 0 maxima).
           case x of (k, uu, vv, hh) \<Rightarrow> i \<noteq> k \<and> h < fl_round fl (c * hh)}
        = (\<lambda>k. (k, maxima ! k)) ` stronger fl maxima c i"
    using assms by (auto simp: stronger_def in_set_enumerate_eq image_iff case_prod_beta)
  moreover have "euclid fl u v (fst (maxima ! k)) (fst (snd (maxima ! k)))
                 = fl_round fl (dist (place (maxima ! i)) (place (maxima ! k)))" for k
    using euclid_place[of fl "maxima ! i" "maxima ! k"] assms(2) by simp
  ultimately show ?thesis
    by (simp add: image_image case_prod_beta)
qed

lemma rmin_loop_spec:
  assumes "i < length maxima" "maxima ! i = (u, v, h)"
    and "mono (fl_round fl)" "fl_round fl rmax = rmax"
    and "\<And>k. k \<in> stronger fl maxima c i \<Longrightarrow> dist (place (maxima ! i)) (place (maxima ! k)) < rmax"
  shows "rmin_loop fl i u v h c (enumerate 0 maxima) rmax = spec_rmin fl maxima c rmax i"
proof (cases "stronger fl maxima c i = {}")
  case True
  then show ?thesis
    unfolding rmin_loop_Min qualifying_image[OF assms(1,2)] spec_rmin_def by simp
next
  case False
  let ?D = "(\<lambda>k. dist (place (maxima ! i)) (place (maxima ! k))) ` stronger fl maxima c i"
  have fin: "finite ?D" and ne: "?D \<noteq> {}"
    using False by (simp_all add: stronger_def)
  have "Min (insert rmax (fl_round fl ` ?D)) = min rmax (Min (fl_round fl ` ?D))"
    using ne fin by (simp add: Min_insert)
  moreover have "Min (fl_round fl ` ?D) = fl_round fl (Min ?D)"
    using mono_Min_commute[OF assms(3) fin ne] by simp
  moreover have "Min ?D < rmax"
    using ne fin assms(5) by (subst Min_less_iff) auto
  then have "fl_round fl (Min ?D) \<le> rmax"
    using monoD[OF assms(3), of "Min ?D" rmax] assms(4) by simp
  ultimately show ?thesis
    unfolding rmin_loop_Min qualifying_image[OF assms(1,2)] spec_rmin_def using False
    by (simp add: min_def)
qed

lemma anms_loop_closed:
  "anms_loop fl maxima rmax c ixs acc =
     acc @ map (\<lambda>(i, u, v, h). (u, v, rmin_loop fl i u v h c (enumerate 0 maxima) rmax)) ixs"
  by (induction ixs arbitrary: acc) auto

lemma coord_close:
  assumes "(u, v, h) \<in> set (get_maxima H t s)" "(uu, vv, hh) \<in> set (get_maxima H t s)"
  shows "sqrt (real_of_int ((u - uu)\<^sup>2 + (v - vv)\<^sup>2)) < real ((max (nrows H) (ncols H))\<^sup>2)"
proof -
  let ?X = "int (max (nrows H) (ncols H))"
  from assms(1) obtain k j where 1: "u = int j" "v = int k" "1 \<le> k" "k + 1 < nrows H" "1 \<le> j" "j + 1 < ncols H"
    unfolding get_maxima_mem by blast
  from assms(2) obtain k' j' where 2: "uu = int j'" "vv = int k'" "1 \<le> k'" "k' + 1 < nrows H" "1 \<le> j'" "j' + 1 < ncols H"
    unfolding get_maxima_mem by blast
  have X: "3 \<le> ?X" using 1 by auto
  have a: "\<bar>u - uu\<bar> < ?X" "\<bar>v - vv\<bar> < ?X" using 1 2 by auto
  have "\<bar>u - uu\<bar>\<^sup>2 < ?X\<^sup>2"
    using a(1) by (intro power_strict_mono) simp_all
  then have "(u - uu)\<^sup>2 < ?X\<^sup>2" by simp
  moreover have "\<bar>v - vv\<bar>\<^sup>2 < ?X\<^sup>2"
    using a(2) by (intro power_strict_mono) simp_all
  then have "(v - vv)\<^sup>2 < ?X\<^sup>2" by simp
  moreover have "2 * ?X\<^sup>2 \<le> ?X\<^sup>2 * ?X\<^sup>2"
  proof -
    have "3 * 3 \<le> ?X * ?X" using X by (intro mult_mono) auto
    then have "2 \<le> ?X\<^sup>2" by (simp add: power2_eq_square)
    then show ?thesis by (intro mult_right_mono) auto
  qed
  ultimately have lt: "(u - uu)\<^sup>2 + (v - vv)\<^sup>2 < (?X\<^sup>2)\<^sup>2"
    by (simp add: power2_eq_square[of "?X\<^sup>2"])
  have "sqrt (real_of_int ((u - uu)\<^sup>2 + (v - vv)\<^sup>2)) < sqrt (real_of_int ((?X\<^sup>2)\<^sup>2))"
    using lt by (simp only: real_sqrt_less_iff of_int_less_iff)
  also have "sqrt (real_of_int ((?X\<^sup>2)\<^sup>2)) = real_of_int (?X\<^sup>2)"
  proof -
    have "sqrt (real_of_int ((?X\<^sup>2)\<^sup>2)) = sqrt ((real_of_int (?X\<^sup>2))\<^sup>2)"
      by (simp only: of_int_power)
    also have "\<dots> = \<bar>real_of_int (?X\<^sup>2)\<bar>" by (rule real_sqrt_abs)
    also have "\<dots> = real_of_int (?X\<^sup>2)" by (rule abs_of_nonneg) simp
    finally show ?thesis .
  qed
  finally show ?thesis by simp
qed

lemma py_take_nonneg: "0 \<le> n \<Longrightarrow> py_take n xs = take (nat n) xs"
  by (simp add: py_take_def clip_def min_def)

lemma anms_loop_spec:
  assumes "maxima = get_maxima H t s" "rmax = real ((max (nrows H) (ncols H))\<^sup>2)"
    and "mono (fl_round fl)" "fl_round fl rmax = rmax"
  shows "anms_loop fl maxima rmax c (enumerate 0 maxima) [] = spec_radii fl maxima c rmax"
proof (rule nth_equalityI)
  show len: "length (anms_loop fl maxima rmax c (enumerate 0 maxima) [])
             = length (spec_radii fl maxima c rmax)"
    by (simp add: anms_loop_closed spec_radii_def)
  fix i assume "i < length (anms_loop fl maxima rmax c (enumerate 0 maxima) [])"
  then have i: "i < length maxima" by (simp add: anms_loop_closed)
  obtain u v h where m: "maxima ! i = (u, v, h)" by (cases "maxima ! i") auto
  have close: "dist (place (maxima ! i)) (place (maxima ! k)) < rmax"
    if "k \<in> stronger fl maxima c i" for k
  proof -
    have k: "k < length maxima" using that by (simp add: stronger_def)
    obtain uu vv hh where mk: "maxima ! k = (uu, vv, hh)" by (cases "maxima ! k") auto
    have "(u, v, h) \<in> set (get_maxima H t s)"
      using i m assms(1) by (metis nth_mem)
    moreover have "(uu, vv, hh) \<in> set (get_maxima H t s)"
      using k mk assms(1) by (metis nth_mem)
    ultimately show ?thesis
      unfolding m mk dist_place assms(2) by (rule coord_close)
  qed
  have "anms_loop fl maxima rmax c (enumerate 0 maxima) [] ! i
        = (u, v, rmin_loop fl i u v h c (enumerate 0 maxima) rmax)"
    using i m by (simp add: anms_loop_closed nth_enumerate_eq)
  also have "\<dots> = (u, v, spec_rmin fl maxima c rmax i)"
    using rmin_loop_spec[OF i m assms(3,4) close] by simp
  also have "\<dots> = spec_radii fl maxima c rmax ! i"
    using i m by (simp add: spec_radii_def)
  finally show "anms_loop fl maxima rmax c (enumerate 0 maxima) [] ! i
                = spec_radii fl maxima c rmax ! i" .
qed

lemma shape_np_array: "nrows (np_array n xss) = length xss" "ncols (np_array n xss) = n"
  by (simp_all add: np_array_def)

lemma exact_simps [simp]:
  "fl_round exact = (\<lambda>x. x)" "fl_exp exact = exp" "fl_sum exact = np_sum"
  "fl_mean exact = np_mean" "fl_std exact = np_std"
  by (simp_all add: exact_def)

lemma mono_exact: "mono (fl_round exact)"
  by (simp add: mono_def)

lemma sqrt_16: "sqrt 16 = 4"
  using real_sqrt_abs[of 4] by simp

lemma three_peaks_shape: "nrows three_peaks = 5" "ncols three_peaks = 9"
  by (simp_all add: three_peaks_def np_array_def)

lemma three_peaks_thresh: "thresh_of fl three_peaks False = Inr 0"
  by (simp add: thresh_of_def np_min_def np_size_def three_peaks_def np_array_def)

lemma three_peaks_maxima: "get_maxima three_peaks 0 False = [(2, 2, 4), (4, 2, 1), (6, 2, 1)]"
  unfolding three_peaks_def by code_simp

lemma three_peaks_euclid: "euclid exact 4 2 2 2 = 2" "euclid exact 6 2 2 2 = 4"
  by (simp_all add: euclid_def sqrt_16)

lemma three_peaks_anms:
  "anms exact three_peaks 3 (1/2) False False = Inr (Unzipped [2, 6, 4] [2, 2, 2])"
  by (simp add: anms_def three_peaks_thresh then_exn_simps three_peaks_maxima Let_def
      three_peaks_shape three_peaks_euclid sort_desc_def py_take_def clip_def maxima_to_uv_def)

section \<open>The loops of the index-accelerated selector\<close>

lemma uv_points_maxima_to_uv:
  "uv_points (maxima_to_uv xs zipped) = map coord xs"
  by (simp add: maxima_to_uv_def zip_map_map zip_same_conv_map coord_def)

lemma kd_search_find:
  assumes "kd_search fl query mh c x h ks = Inr r"
  shows "r = map_option (\<lambda>k. fst (query x k))
               (find (\<lambda>k. h < fl_round fl (c * mh ! snd (query x k))) ks)"
  using assms
proof (induction ks)
  case Nil
  then show ?case by simp
next
  case (Cons k ks)
  obtain d ind where q: "query x k = (d, ind)" by (cases "query x k") auto
  show ?case
    using Cons by (auto simp: q split: if_splits)
qed

lemma kd_search_in_range:
  assumes "kd_search fl query mh c x h ks = Inr r"
    and "find (\<lambda>k. h < fl_round fl (c * mh ! snd (query x k))) ks = Some k"
  shows "snd (query x k) < length mh"
  using assms
proof (induction ks)
  case Nil
  then show ?case by simp
next
  case (Cons a ks)
  show ?case
  proof (cases "h < fl_round fl (c * mh ! snd (query x a))")
    case True
    then have "k = a" using Cons.prems(2) by simp
    moreover have "snd (query x a) < length mh"
      using Cons.prems(1) by (simp add: case_prod_beta split: if_splits)
    ultimately show ?thesis by simp
  next
    case False
    then have "kd_search fl query mh c x h ks = Inr r"
      using Cons.prems(1) by (simp add: case_prod_beta split: if_splits)
    moreover have "find (\<lambda>k. h < fl_round fl (c * mh ! snd (query x k))) ks = Some k"
      using Cons.prems(2) False by simp
    ultimately show ?thesis by (rule Cons.IH)
  qed
qed

lemma kd_loop_closed:
  assumes "kd_loop fl query muv mh c edge is acc = Inr out"
  shows "out = acc @ concat (map (\<lambda>i.
            case kd_first fl query muv mh c i of
              None \<Rightarrow> []
            | Some k \<Rightarrow> [(fst (muv ! i) + edge, snd (muv ! i) + edge, fst (query (muv ! i) k))]) is)"
  using assms
proof (induction "is" arbitrary: acc)
  case Nil
  then show ?case by simp
next
  case (Cons i rest)
  obtain u v where uv: "muv ! i = (u, v)" by (cases "muv ! i") auto
  from Cons.prems obtain r where r: "kd_search fl query mh c (u, v) (mh ! i) [2 ..< length muv] = Inr r"
    by (cases "kd_search fl query mh c (u, v) (mh ! i) [2 ..< length muv]") (auto simp: uv)
  have f: "r = map_option (\<lambda>k. fst (query (u, v) k)) (kd_first fl query muv mh c i)"
    using kd_search_find[OF r] by (simp add: kd_first_def uv)
  show ?case
  proof (cases "kd_first fl query muv mh c i")
    case None
    then have "kd_loop fl query muv mh c edge rest acc = Inr out"
      using Cons.prems r f by (simp add: uv)
    from Cons.IH[OF this] show ?thesis using None by (simp add: uv)
  next
    case (Some k)
    then have "kd_loop fl query muv mh c edge rest (acc @ [(u + edge, v + edge, fst (query (u, v) k))]) = Inr out"
      using Cons.prems r f by (simp add: uv)
    from Cons.IH[OF this] show ?thesis using Some by (simp add: uv)
  qed
qed

lemma kd_loop_in_range:
  assumes "kd_loop fl query muv mh c edge is acc = Inr out"
    and "i \<in> set is" "kd_first fl query muv mh c i = Some k"
  shows "snd (query (muv ! i) k) < length mh"
  using assms
proof (induction "is" arbitrary: acc)
  case Nil
  then show ?case by simp
next
  case (Cons j rest)
  obtain u v where uv: "muv ! j = (u, v)" by (cases "muv ! j") auto
  from Cons.prems(1) obtain r where r: "kd_search fl query mh c (u, v) (mh ! j) [2 ..< length muv] = Inr r"
    by (cases "kd_search fl query mh c (u, v) (mh ! j) [2 ..< length muv]") (auto simp: uv)
  have f: "r = map_option (\<lambda>k. fst (query (u, v) k)) (kd_first fl query muv mh c j)"
    using kd_search_find[OF r] by (simp add: kd_first_def uv)
  have rest: "\<exists>acc'. kd_loop fl query muv mh c edge rest acc' = Inr out"
    using Cons.prems(1) r by (cases r) (auto simp: uv)
  show ?case
  proof (cases "i = j")
    case True
    show ?thesis
      using kd_search_in_range[OF r] Cons.prems(3) True by (simp add: kd_first_def uv)
  next
    case False
    then have "i \<in> set rest" using Cons.prems(2) by simp
    with rest Cons.IH Cons.prems(3) show ?thesis by blast
  qed
qed

lemma kd_loop_entries:
  assumes "kd_loop fl query muv mh c edge [0 ..< length muv] [] = Inr out"
  shows "out = kd_entries fl query muv mh c edge"
  using kd_loop_closed[OF assms] by (simp add: kd_entries_def)

lemma anms_kdtree_closed:
  assumes "anms_kdtree fl KDTree H0 n c edge use_thresh zipped = Inr res"
    and "thresh_of fl (trim H0 edge) use_thresh = Inr thresh"
    and "KDTree (map coord (get_maxima (trim H0 edge) thresh False)) = Inr query"
  shows "kd_loop fl query (map coord (get_maxima (trim H0 edge) thresh False))
           (map (\<lambda>mi. snd (snd mi)) (get_maxima (trim H0 edge) thresh False)) c edge
           [0 ..< length (get_maxima (trim H0 edge) thresh False)] []
         = Inr (kd_entries fl query (map coord (get_maxima (trim H0 edge) thresh False))
                  (map (\<lambda>mi. snd (snd mi)) (get_maxima (trim H0 edge) thresh False)) c edge)
       \<and> res = maxima_to_uv (py_take n (sort_desc
                   (kd_entries fl query (map coord (get_maxima (trim H0 edge) thresh False))
                      (map (\<lambda>mi. snd (snd mi)) (get_maxima (trim H0 edge) thresh False))
                      c edge))) zipped"
proof -
  let ?maxima = "get_maxima (trim H0 edge) thresh False"
  let ?muv = "map coord ?maxima"
  let ?mh = "map (\<lambda>mi. snd (snd mi)) ?maxima"
  have c: "(\<lambda>mi. (fst mi, fst (snd mi))) = coord" by (simp add: coord_def fun_eq_iff)
  from assms obtain out where o: "kd_loop fl query ?muv ?mh c edge [0 ..< length ?maxima] [] = Inr out"
    by (cases "kd_loop fl query ?muv ?mh c edge [0 ..< length ?maxima] []")
       (auto simp: anms_kdtree_def Let_def then_exn_simps trim_def c)
  have "out = kd_entries fl query ?muv ?mh c edge"
    using kd_loop_entries[of fl query ?muv ?mh c edge out] o by simp
  moreover have "res = maxima_to_uv (py_take n (sort_desc out)) zipped"
    using assms o by (simp add: anms_kdtree_def Let_def then_exn_simps trim_def c)
  ultimately show ?thesis using o by simp
qed

lemma distinct_coords: "distinct (map coord (get_maxima im t s))"
proof -
  have "map coord (get_maxima im t False)
        = map (\<lambda>(k, j). (int j, int k)) (filter (\<lambda>(k, j). strict_peak im t k j) (interior_cells im))"
    by (simp add: get_maxima_unsorted case_prod_beta comp_def coord_def)
  moreover have "distinct (map (\<lambda>(k, j). (int j, int k)) (filter (\<lambda>(k, j). strict_peak im t k j) (interior_cells im)))"
    by (rule distinct_map[THEN iffD2]) (auto simp: distinct_interior inj_on_def)
  ultimately have d: "distinct (map coord (get_maxima im t False))" by simp
  show ?thesis
  proof (cases s)
    case True
    have "mset (map coord (get_maxima im t True)) = mset (map coord (get_maxima im t False))"
      by (simp add: get_maxima_sorted sort_desc_def)
    then show ?thesis using d True by (metis mset_eq_imp_distinct_iff)
  next
    case False
    then show ?thesis using d by simp
  qed
qed

lemma coord_index:
  assumes "i < length (get_maxima im t s)" "j < length (get_maxima im t s)"
    and "coord (get_maxima im t s ! i) = coord (get_maxima im t s ! j)"
  shows "i = j"
proof -
  have "map coord (get_maxima im t s) ! i = map coord (get_maxima im t s) ! j"
    using assms by simp
  with distinct_coords[of im t s] assms(1,2) show ?thesis
    by (metis length_map nth_eq_iff_index_eq)
qed

lemma kd_entries_point:
  assumes "(x, y, d) \<in> set (kd_entries fl query muv mh c edge)"
  shows "\<exists>i k. i < length muv \<and> kd_first fl query muv mh c i = Some k
             \<and> x = fst (muv ! i) + edge \<and> y = snd (muv ! i) + edge"
proof -
  from assms have "\<exists>i \<in> set [0 ..< length muv].
      (x, y, d) \<in> set (case kd_first fl query muv mh c i of None \<Rightarrow> []
               | Some k \<Rightarrow> [(fst (muv ! i) + edge, snd (muv ! i) + edge, fst (query (muv ! i) k))])"
    unfolding kd_entries_def set_concat set_map by blast
  then obtain i where i': "i \<in> set [0 ..< length muv]"
    and m: "(x, y, d) \<in> set (case kd_first fl query muv mh c i of None \<Rightarrow> []
               | Some k \<Rightarrow> [(fst (muv ! i) + edge, snd (muv ! i) + edge, fst (query (muv ! i) k))])"
    by blast
  have i: "i < length muv" using i' by simp
  show ?thesis
  proof (cases "kd_first fl query muv mh c i")
    case None
    then show ?thesis using m by simp
  next
    case (Some k)
    then have "x = fst (muv ! i) + edge \<and> y = snd (muv ! i) + edge" using m by simp
    then show ?thesis using i Some by blast
  qed
qed

lemma kd_first_Some:
  assumes "kd_first fl query muv mh c i = Some k"
  shows "k \<in> {2 ..< length muv} \<and> mh ! i < fl_round fl (c * mh ! snd (query (muv ! i) k))"
  using assms unfolding kd_first_def by (auto simp: find_Some_iff)

lemma kd_first_finds:
  assumes "i < length maxima"
    and "kd_first fl query (map coord maxima) (map (\<lambda>mi. snd (snd mi)) maxima) c i = Some k"
    and "snd (query (coord (maxima ! i)) k) < length maxima"
  shows "k \<in> {2 ..< length maxima} \<and> finds fl query maxima c i k"
  using kd_first_Some[OF assms(2)] assms(1,3) by (simp add: finds_def)

lemma anms_points:
  assumes "anms fl H n c use_thresh zipped = Inr res"
    and "thresh_of fl H use_thresh = Inr thresh"
    and "int (length (get_maxima H thresh False)) \<le> n"
  shows "set (uv_points res) = set (map coord (get_maxima H thresh False))"
proof -
  let ?maxima = "get_maxima H thresh False"
  let ?out = "anms_loop fl ?maxima (real ((max (nrows H) (ncols H))\<^sup>2)) c (enumerate 0 ?maxima) []"
  have len: "length ?out = length ?maxima"
    by (simp add: anms_loop_closed)
  have co: "map coord ?out = map coord ?maxima"
    by (rule nth_equalityI)
       (simp_all add: anms_loop_closed nth_enumerate_eq case_prod_beta coord_def)
  have "res = maxima_to_uv (py_take n (sort_desc ?out)) zipped"
    using assms(1,2) by (simp add: anms_def then_exn_simps Let_def)
  moreover have "py_take n (sort_desc ?out) = sort_desc ?out"
    using assms(3) len by (simp add: py_take_def clip_def sort_desc_def)
  ultimately have "uv_points res = map coord (sort_desc ?out)"
    by (simp add: uv_points_maxima_to_uv)
  then have "set (uv_points res) = coord ` set ?out"
    by (simp add: sort_desc_def)
  also have "\<dots> = set (map coord ?out)" by simp
  finally show ?thesis by (simp only: co)
qed

lemma kdtree_points:
  assumes "anms_kdtree fl KDTree H0 n c edge use_thresh zipped = Inr res"
    and "thresh_of fl (trim H0 edge) use_thresh = Inr thresh"
    and "KDTree (map coord (get_maxima (trim H0 edge) thresh False)) = Inr query"
    and "p \<in> set (uv_points res)"
  shows "\<exists>i k. i < length (get_maxima (trim H0 edge) thresh False)
             \<and> p = (fst (coord (get_maxima (trim H0 edge) thresh False ! i)) + edge,
                    snd (coord (get_maxima (trim H0 edge) thresh False ! i)) + edge)
             \<and> k \<in> {2 ..< length (get_maxima (trim H0 edge) thresh False)}
             \<and> snd (query (coord (get_maxima (trim H0 edge) thresh False ! i)) k)
                 < length (get_maxima (trim H0 edge) thresh False)
             \<and> finds fl query (get_maxima (trim H0 edge) thresh False) c i k"
proof -
  let ?maxima = "get_maxima (trim H0 edge) thresh False"
  let ?muv = "map coord ?maxima"
  let ?mh = "map (\<lambda>mi. snd (snd mi)) ?maxima"
  let ?E = "kd_entries fl query ?muv ?mh c edge"
  from anms_kdtree_closed[OF assms(1-3)]
  have run: "kd_loop fl query ?muv ?mh c edge [0 ..< length ?maxima] [] = Inr ?E"
    and res: "res = maxima_to_uv (py_take n (sort_desc ?E)) zipped"
    by simp_all
  have "p \<in> coord ` set (py_take n (sort_desc ?E))"
    using assms(4) unfolding res uv_points_maxima_to_uv by simp
  then have "p \<in> coord ` set ?E"
    unfolding py_take_def sort_desc_def using set_take_subset[of _ "sort_key (\<lambda>v. - snd (snd v)) ?E"]
    by auto
  then obtain x y d where e: "(x, y, d) \<in> set ?E" and p: "p = (x, y)"
    by (auto simp: coord_def)
  from kd_entries_point[OF e] obtain i k where i: "i < length ?muv"
    and f: "kd_first fl query ?muv ?mh c i = Some k"
    and xy: "x = fst (?muv ! i) + edge" "y = snd (?muv ! i) + edge"
    by blast
  have i': "i < length ?maxima" using i by simp
  have "snd (query (?muv ! i) k) < length ?mh"
    using kd_loop_in_range[OF run _ f] i' by simp
  then have rng: "snd (query (coord (?maxima ! i)) k) < length ?maxima"
    using i' by simp
  from kd_first_finds[OF i' f rng]
  have "k \<in> {2 ..< length ?maxima}" "finds fl query ?maxima c i k" by simp_all
  with i' p xy rng show ?thesis by (intro exI[of _ i] exI[of _ k]) simp
qed

lemma shift_inj: "(a + edge, b + edge) = (a' + edge, b' + edge) \<longleftrightarrow> (a, b) = (a', b')" for edge :: int
  by simp

section \<open>The concrete runs of the selectors\<close>

lemma trim_three_peaks:
  "trim three_peaks 1 = np_array 7 [[0, 0, 0, 0, 0, 0, 0], [0, 4, 0, 1, 0, 1, 0], [0, 0, 0, 0, 0, 0, 0]]"
  unfolding three_peaks_def by code_simp

lemma trimmed_shape:
  "nrows (np_array 7 [[0, 0, 0, 0, 0, 0, 0], [0, 4, 0, 1, 0, 1, 0], [0, 0, 0, 0, 0, 0, 0]]) = 3"
  "ncols (np_array 7 [[0, 0, 0, 0, 0, 0, 0], [0, 4, 0, 1, 0, 1, 0], [0, 0, 0, 0, 0, 0, 0]]) = 7"
  by (simp_all add: np_array_def)

lemma trimmed_thresh: "thresh_of fl (trim three_peaks 1) False = Inr 0"
  unfolding trim_three_peaks
  by (simp add: thresh_of_def np_min_def np_size_def np_array_def)

lemma trimmed_maxima:
  "get_maxima (trim three_peaks 1) 0 False = [(1, 1, 4), (3, 1, 1), (5, 1, 1)]"
  unfolding trim_three_peaks by code_simp

lemma trimmed_anms:
  "anms exact (trim three_peaks 1) 3 (1/2) False False = Inr (Unzipped [1, 5, 3] [1, 1, 1])"
proof -
  have e: "euclid exact 3 1 1 1 = 2" "euclid exact 5 1 1 1 = 4"
    by (simp_all add: euclid_def sqrt_16)
  show ?thesis
    by (simp add: anms_def trimmed_thresh then_exn_simps trimmed_maxima Let_def)
       (simp add: trim_three_peaks trimmed_shape e sort_desc_def py_take_def clip_def
          maxima_to_uv_def)
qed

lemma trimmed_index:
  "\<exists>query. KDTree_ref (map coord (get_maxima (trim three_peaks 1) 0 False)) = Inr query
     \<and> query (1, 1) 2 = (2, 1) \<and> query (3, 1) 2 = (2, 0) \<and> query (5, 1) 2 = (2, 1)"
  by (simp add: trimmed_maxima coord_def KDTree_ref_def enumerate_eq_zip)

lemma three_peaks_kdtree:
  "anms_kdtree exact KDTree_ref three_peaks 3 (1/2) 1 False False = Inr (Unzipped [4] [2])"
proof -
  obtain query where q: "KDTree_ref (map coord (get_maxima (trim three_peaks 1) 0 False)) = Inr query"
    "query (1, 1) 2 = (2, 1)" "query (3, 1) 2 = (2, 0)" "query (5, 1) 2 = (2, 1)"
    using trimmed_index by blast
  have c: "(\<lambda>mi. (fst mi, fst (snd mi))) = coord" by (simp add: coord_def fun_eq_iff)
  have q': "KDTree_ref [(1, 1), (3, 1), (5, 1)] = Inr query"
    using q(1) by (simp add: trimmed_maxima coord_def)
  have u: "[2..<3] = [2::nat]" "[0..<3] = [0::nat, 1, 2]"
    by (simp_all add: upt_rec)
  show ?thesis
    unfolding anms_kdtree_def trim_def[symmetric]
    using q(2-4)
    by (simp add: trimmed_thresh then_exn_simps trimmed_maxima Let_def q' u numeral_2_eq_2
        sort_desc_def py_take_def clip_def maxima_to_uv_def)
qed


section \<open>The loops of the kernel builder and the errors\<close>



lemma gk_rows_error: "gk_rows fl mean sigma j ks h = Inl e \<Longrightarrow> e = ZeroDivisionError"
proof (induction ks arbitrary: h)
  case Nil
  then show ?case by simp
next
  case (Cons k ks)
  then show ?case
    by (cases "gauss_cell fl mean sigma k j")
       (auto simp: gauss_cell_def Let_def split: if_splits)
qed

lemma gk_cols_error: "gk_cols fl mean sigma js ks h = Inl e \<Longrightarrow> e = ZeroDivisionError"
proof (induction js arbitrary: h)
  case Nil
  then show ?case by simp
next
  case (Cons j js)
  then show ?case
    by (cases "gk_rows fl mean sigma j ks h") (auto dest: gk_rows_error)
qed

lemma kernel_odd_error:
  "get_gaussian_kernel fl junk (PyInt n) sigma = Inl (ValueError (Kernel_size_must_be_odd x))
     \<longleftrightarrow> even n \<and> x = PyInt n"
proof (cases "even n")
  case True
  then show ?thesis
    by (auto simp: get_gaussian_kernel_def py_not_def py_mod2_def)
next
  case False
  then have odd: "\<not> py_not (py_mod2 fl (PyInt n))"
    by (simp add: py_not_def py_mod2_def odd_iff_mod_2_eq_one)
  have "get_gaussian_kernel fl junk (PyInt n) sigma \<noteq> Inl (ValueError (Kernel_size_must_be_odd x))"
  proof (cases "n < 0")
    case True
    then show ?thesis using odd by (simp add: get_gaussian_kernel_def)
  next
    case nn: False
    show ?thesis
    proof (cases "gk_cols fl (py_int (py_floordiv2 (PyInt n))) sigma [0 ..< nat n] [0 ..< nat n]
                    (np_empty junk (nat n) (nat n))")
      case (Inl e)
      then have "e = ZeroDivisionError" by (rule gk_cols_error)
      then show ?thesis
        using odd nn Inl by (simp add: get_gaussian_kernel_def then_exn_simps Let_def)
    next
      case (Inr h)
      then show ?thesis
        using odd nn by (simp add: get_gaussian_kernel_def then_exn_simps Let_def)
    qed
  qed
  with False show ?thesis by simp
qed

lemma then_exn_not:
  "m \<noteq> Inl e \<Longrightarrow> (\<And>y. f y \<noteq> Inl e) \<Longrightarrow> then_exn m f \<noteq> Inl e"
  by (cases m) (simp_all add: then_exn_simps)

lemma setslice_not_mode: "setslice a rs cs src \<noteq> Inl (ValueError (Invalide_boundary_mode m))"
  by (simp add: setslice_def split_beta Let_def)

lemma sum_of_product_not_mode: "sum_of_product x y \<noteq> Inl (ValueError (Invalide_boundary_mode m))"
  by (simp add: sum_of_product_def split: option.splits)

lemma conv_cols_not_mode:
  "conv_cols g h180 radius v us out \<noteq> Inl (ValueError (Invalide_boundary_mode m))"
proof (induction us arbitrary: out)
  case Nil
  then show ?case by simp
next
  case (Cons u us)
  then show ?case
    using sum_of_product_not_mode[of "window g radius v u" h180 m]
    by (cases "sum_of_product (window g radius v u) h180") simp_all
qed

lemma conv_rows_not_mode:
  "conv_rows g h180 radius vs us out \<noteq> Inl (ValueError (Invalide_boundary_mode m))"
proof (induction vs arbitrary: out)
  case Nil
  then show ?case by simp
next
  case (Cons v vs)
  then show ?case
    using conv_cols_not_mode[of g h180 radius v us out m]
    by (cases "conv_cols g h180 radius v us out") simp_all
qed

lemma convolve_not_mode: "convolve g h \<noteq> Inl (ValueError (Invalide_boundary_mode m))"
  by (simp add: convolve_def Let_def conv_rows_not_mode)

lemma conv_input_not_mode:
  assumes "boundary_mode \<in> {''fill'', ''extend'', ''mirror'', ''wrap''}"
  shows "conv_input_of junk img r boundary_mode fill \<noteq> Inl (ValueError (Invalide_boundary_mode m))"
proof -
  consider "boundary_mode = ''fill''" | "boundary_mode = ''extend''"
    | "boundary_mode = ''mirror''" | "boundary_mode = ''wrap''"
    using assms by auto
  then show ?thesis
  proof cases
    case 1
    then show ?thesis by (simp add: conv_input_of_def Let_def setslice_not_mode)
  next
    case 2
    then show ?thesis
      by (simp add: conv_input_of_def Let_def) (intro then_exn_not setslice_not_mode)
  next
    case 3
    then show ?thesis
      by (simp add: conv_input_of_def Let_def) (intro then_exn_not setslice_not_mode)
  next
    case 4
    then show ?thesis
      by (simp add: conv_input_of_def Let_def) (intro then_exn_not setslice_not_mode)
  qed
qed

lemma boundary_mode_error:
  "convolve2d junk img kern boundary_mode fill = Inl (ValueError (Invalide_boundary_mode m))
     \<longleftrightarrow> boundary_mode \<notin> {''valid'', ''fill'', ''extend'', ''mirror'', ''wrap''}
         \<and> m = boundary_mode"
proof (cases "boundary_mode \<in> {''valid'', ''fill'', ''extend'', ''mirror'', ''wrap''}")
  case True
  have "convolve2d junk img kern boundary_mode fill \<noteq> Inl (ValueError (Invalide_boundary_mode m))"
  proof (cases "boundary_mode = ''valid''")
    case True
    then show ?thesis by (simp add: convolve2d_def Let_def convolve_not_mode)
  next
    case False
    with True have "boundary_mode \<in> {''fill'', ''extend'', ''mirror'', ''wrap''}" by auto
    from conv_input_not_mode[OF this] False show ?thesis
      unfolding convolve2d_def Let_def
      by (simp only: if_False) (intro then_exn_not convolve_not_mode, simp_all)
  qed
  with True show ?thesis by simp
next
  case False
  then have "conv_input_of junk img (nrows kern div 2) boundary_mode fill
             = Inl (ValueError (Invalide_boundary_mode boundary_mode))"
    by (simp add: conv_input_of_def Let_def)
  with False show ?thesis
    by (auto simp: convolve2d_def Let_def then_exn_simps)
qed








section \<open>Claims about the convolution engine\<close>

text \<open>
  C1. The claim: for every image and every square kernel of odd side \<open>2 r + 1\<close>,
  \<open>convolve2d\<close> returns an array of the image's shape holding the true convolution.
  The code breaks it for the kernel of side one in the padded modes: with \<open>r = 0\<close> the
  slice \<open>r:-r\<close> is \<open>0:0\<close>, the empty slice, so the statement
  \<open>conv_input[r:-r, r:-r] = img\<close> raises for a 2 x 2 image, where the sibling mode
  \<open>valid\<close> returns the convolution.
\<close>

theorem convolve2d_side_one_kernel:
  "convolve2d zeroed (np_array 2 [[1, 2], [3, 4]]) (np_array 1 [[1]]) ''fill'' 0
     = Inl (ValueError (Could_not_broadcast_input_array (2, 2) (0, 0)))
   \<and> convolve2d zeroed (np_array 2 [[1, 2], [3, 4]]) (np_array 1 [[1]]) ''valid'' 0
     = Inr (np_array 2 [[1, 2], [3, 4]])"
  by code_simp

text \<open>
  C2, as claimed: with an identity-impulse kernel every mode returns the image. In
  mode \<open>valid\<close> the border band of width \<open>r\<close> is left at zero, so the claim fails there.
\<close>

theorem impulse_valid_counterexample:
  "convolve2d zeroed (np_array 3 [[1, 2, 3], [4, 5, 6], [7, 8, 9]]) (impulse 1) ''valid'' 0
     \<noteq> Inr (np_array 3 [[1, 2, 3], [4, 5, 6], [7, 8, 9]])"
  by code_simp

text \<open>
  C2, amended: with the identity-impulse kernel of radius \<open>r\<close>, mode \<open>valid\<close> returns the
  image on the cells at least \<open>r\<close> away from every border and zero on the border band
  (the whole image when \<open>r = 0\<close>). For \<open>r \<ge> 1\<close>, the modes \<open>fill\<close> and \<open>extend\<close> return
  the image unchanged, and so do \<open>mirror\<close> and \<open>wrap\<close> for an image with at least \<open>r\<close>
  rows and \<open>r\<close> columns. In these cases the padded array is the same whatever the
  uninitialised memory held (for \<open>extend\<close>: when the image has a row and a column), so
  no cell that the convolution reads is an uninitialised one.
\<close>

theorem convolve2d_impulse:
  assumes "wf_arr img"
  shows "(0 < r \<longrightarrow>
            convolve2d junk img (impulse r) ''fill'' fill = Inr img
          \<and> convolve2d junk img (impulse r) ''extend'' fill = Inr img
          \<and> (\<forall>junk'. conv_input_of junk' img r ''fill'' fill = conv_input_of junk img r ''fill'' fill)
          \<and> (0 < nrows img \<and> 0 < ncols img \<longrightarrow>
               (\<forall>junk'. conv_input_of junk' img r ''extend'' fill
                          = conv_input_of junk img r ''extend'' fill)))
       \<and> (0 < r \<and> r \<le> nrows img \<and> r \<le> ncols img \<longrightarrow>
            convolve2d junk img (impulse r) ''mirror'' fill = Inr img
          \<and> convolve2d junk img (impulse r) ''wrap'' fill = Inr img
          \<and> (\<forall>junk'. conv_input_of junk' img r ''mirror'' fill
                       = conv_input_of junk img r ''mirror'' fill)
          \<and> (\<forall>junk'. conv_input_of junk' img r ''wrap'' fill
                       = conv_input_of junk img r ''wrap'' fill))
       \<and> convolve2d junk img (impulse r) ''valid'' fill =
           Inr (of_fun (nrows img) (ncols img)
                 (\<lambda>v u. if r \<le> v \<and> v + r < nrows img \<and> r \<le> u \<and> u + r < ncols img
                        then cell img v u else 0))"
proof -
  have "convolve2d junk img (impulse r) ''fill'' fill = Inr img" if "0 < r"
    using assms that conv_input_fill[of r junk img fill] by (intro convolve2d_impulse_padded) simp_all
  moreover have "convolve2d junk img (impulse r) ''extend'' fill = Inr img" if "0 < r"
    using assms that conv_input_extend[of r junk img fill] by (intro convolve2d_impulse_padded) simp_all
  moreover have "convolve2d junk img (impulse r) ''mirror'' fill = Inr img" if "0 < r"
    using assms that conv_input_mirror[of r junk img fill] by (intro convolve2d_impulse_padded) auto
  moreover have "convolve2d junk img (impulse r) ''wrap'' fill = Inr img"
    if "0 < r" "r \<le> nrows img" "r \<le> ncols img"
    using assms that conv_input_wrap[of r img junk fill] by (intro convolve2d_impulse_padded) simp_all
  moreover have "conv_input_of junk' img r ''fill'' fill = conv_input_of junk img r ''fill'' fill"
    if "0 < r" for junk'
    using that by (simp add: conv_input_fill_closed)
  moreover have "conv_input_of junk' img r ''extend'' fill = conv_input_of junk img r ''extend'' fill"
    if "0 < r" "0 < nrows img" "0 < ncols img" for junk'
    using that by (simp add: conv_input_extend_closed)
  moreover have "conv_input_of junk' img r ''mirror'' fill = conv_input_of junk img r ''mirror'' fill"
    if "0 < r" "r \<le> nrows img" "r \<le> ncols img" for junk'
    using that by (simp add: conv_input_mirror_closed)
  moreover have "conv_input_of junk' img r ''wrap'' fill = conv_input_of junk img r ''wrap'' fill"
    if "0 < r" "r \<le> nrows img" "r \<le> ncols img" for junk'
    using that by (simp add: conv_input_wrap_closed)
  ultimately show ?thesis
    using convolve2d_impulse_valid[of junk img r fill] by blast
qed

theorem convolve2d_impulse_witness:
  "wf_arr (np_array 3 [[1, 2, 3], [4, 5, 6], [7, 8, 9]]) \<and> (0::nat) < 1
   \<and> 0 < nrows (np_array 3 [[1, 2, 3], [4, 5, 6], [7, 8, 9]])
   \<and> 0 < ncols (np_array 3 [[1, 2, 3], [4, 5, 6], [7, 8, 9]])
   \<and> 1 \<le> nrows (np_array 3 [[1, 2, 3], [4, 5, 6], [7, 8, 9]])
   \<and> 1 \<le> ncols (np_array 3 [[1, 2, 3], [4, 5, 6], [7, 8, 9]])
   \<and> convolve2d zeroed (np_array 3 [[1, 2, 3], [4, 5, 6], [7, 8, 9]]) (impulse 1) ''fill'' 0
       = Inr (np_array 3 [[1, 2, 3], [4, 5, 6], [7, 8, 9]])
   \<and> convolve2d zeroed (np_array 3 [[1, 2, 3], [4, 5, 6], [7, 8, 9]]) (impulse 1) ''extend'' 0
       = Inr (np_array 3 [[1, 2, 3], [4, 5, 6], [7, 8, 9]])
   \<and> convolve2d zeroed (np_array 3 [[1, 2, 3], [4, 5, 6], [7, 8, 9]]) (impulse 1) ''mirror'' 0
       = Inr (np_array 3 [[1, 2, 3], [4, 5, 6], [7, 8, 9]])
   \<and> convolve2d zeroed (np_array 3 [[1, 2, 3], [4, 5, 6], [7, 8, 9]]) (impulse 1) ''wrap'' 0
       = Inr (np_array 3 [[1, 2, 3], [4, 5, 6], [7, 8, 9]])
   \<and> (\<forall>junk'. conv_input_of junk' (np_array 3 [[1, 2, 3], [4, 5, 6], [7, 8, 9]]) 1 ''mirror'' 0
        = conv_input_of zeroed (np_array 3 [[1, 2, 3], [4, 5, 6], [7, 8, 9]]) 1 ''mirror'' 0)
   \<and> convolve2d zeroed (np_array 3 [[1, 2, 3], [4, 5, 6], [7, 8, 9]]) (impulse 1) ''valid'' 0
       = Inr (np_array 3 [[0, 0, 0], [0, 5, 0], [0, 0, 0]])"
proof -
  have wf: "wf_arr (np_array 3 [[1, 2, 3], [4, 5, 6], [7, 8, 9]])"
    by (simp add: wf_arr_def np_array_def)
  have sh: "nrows (np_array 3 [[1, 2, 3], [4, 5, 6], [7, 8, 9]]) = 3"
    "ncols (np_array 3 [[1, 2, 3], [4, 5, 6], [7, 8, 9]]) = 3"
    by (simp_all add: np_array_def)
  have v: "convolve2d zeroed (np_array 3 [[1, 2, 3], [4, 5, 6], [7, 8, 9]]) (impulse 1) ''valid'' 0
       = Inr (np_array 3 [[0, 0, 0], [0, 5, 0], [0, 0, 0]])"
    by code_simp
  show ?thesis
    using wf v convolve2d_impulse[OF wf, of 1 zeroed 0] by (simp add: sh)
qed

text \<open>
  C3, as claimed: in mode \<open>mirror\<close> the padded row at distance \<open>t + 1\<close> outside the top
  border is image row \<open>t + 1\<close>. For a 3 x 3 image and radius one, the padded row next
  to the top border (padded row 0, over the image's first column at padded column 1)
  holds image row 0, the border row itself, not image row 1.
\<close>

theorem mirror_padding_counterexample:
  "conv_input_of zeroed (np_array 3 [[1, 2, 3], [4, 5, 6], [7, 8, 9]]) 1 ''mirror'' 0
     = Inr (np_array 5 [[1, 1, 2, 3, 3], [1, 1, 2, 3, 3], [4, 4, 5, 6, 6],
                        [7, 7, 8, 9, 9], [7, 7, 8, 9, 9]])
   \<and> cell (np_array 5 [[1, 1, 2, 3, 3], [1, 1, 2, 3, 3], [4, 4, 5, 6, 6],
                        [7, 7, 8, 9, 9], [7, 7, 8, 9, 9]]) 0 1
     \<noteq> cell (np_array 3 [[1, 2, 3], [4, 5, 6], [7, 8, 9]]) 1 0"
  by code_simp

text \<open>
  C3, amended: in mode \<open>mirror\<close>, for an image with at least \<open>r + 1\<close> rows and columns
  and every offset \<open>t < r\<close>, the padding reflects the samples across the border with
  the border sample included: the padded row at distance \<open>t + 1\<close> outside the top
  border is image row \<open>t\<close>, the one outside the bottom border is image row
  \<open>M - 1 - t\<close>, and likewise for the columns left and right.
\<close>

theorem mirror_padding:
  assumes "t < r" "r < nrows img" "r < ncols img"
  shows "\<exists>c. conv_input_of junk img r ''mirror'' fill = Inr c
           \<and> (\<forall>j<ncols img.
                 cell c (r - 1 - t) (r + j) = cell img t j
               \<and> cell c (nrows img + r + t) (r + j) = cell img (nrows img - 1 - t) j)
           \<and> (\<forall>i<nrows img.
                 cell c (r + i) (r - 1 - t) = cell img i t
               \<and> cell c (r + i) (ncols img + r + t) = cell img i (ncols img - 1 - t))"
proof -
  have r: "0 < r" using assms(1) by simp
  from conv_input_mirror[OF r, of junk img fill]
  obtain c where c: "conv_input_of junk img r ''mirror'' fill = Inr c"
    and rows: "\<forall>t<r. \<forall>j<ncols img. t < nrows img \<longrightarrow>
              cell c (r - 1 - t) (r + j) = cell img t j \<and>
              cell c (nrows img + r + t) (r + j) = cell img (nrows img - 1 - t) j"
    and cols: "\<forall>t<r. \<forall>i<nrows img. t < ncols img \<longrightarrow>
              cell c (r + i) (r - 1 - t) = cell img i t \<and>
              cell c (r + i) (ncols img + r + t) = cell img i (ncols img - 1 - t)"
    by blast
  show ?thesis
    using c rows cols assms by (intro exI[of _ c]) auto
qed

theorem mirror_padding_witness:
  "(0::nat) < 1 \<and> 1 < nrows (np_array 3 [[1, 2, 3], [4, 5, 6], [7, 8, 9]])
   \<and> 1 < ncols (np_array 3 [[1, 2, 3], [4, 5, 6], [7, 8, 9]])
   \<and> (\<exists>c. conv_input_of zeroed (np_array 3 [[1, 2, 3], [4, 5, 6], [7, 8, 9]]) 1 ''mirror'' 0 = Inr c
         \<and> cell c 0 1 = 1 \<and> cell c 0 2 = 2 \<and> cell c 0 3 = 3
         \<and> cell c 4 1 = 7 \<and> cell c 4 2 = 8 \<and> cell c 4 3 = 9
         \<and> cell c 1 0 = 1 \<and> cell c 2 0 = 4 \<and> cell c 3 0 = 7
         \<and> cell c 1 4 = 3 \<and> cell c 2 4 = 6 \<and> cell c 3 4 = 9)"
proof -
  let ?img = "np_array 3 [[1, 2, 3], [4, 5, 6], [7, 8, 9]]"
  have sh: "nrows ?img = 3" "ncols ?img = 3" by (simp_all add: np_array_def)
  have h: "(0::nat) < 1" "1 < nrows ?img" "1 < ncols ?img" by (simp_all add: sh)
  from mirror_padding[OF h, of zeroed 0]
  obtain c where c: "conv_input_of zeroed ?img 1 ''mirror'' 0 = Inr c"
    and rows: "\<forall>j<3. cell c 0 (1 + j) = cell ?img 0 j \<and> cell c 4 (1 + j) = cell ?img 2 j"
    and cols: "\<forall>i<3. cell c (1 + i) 0 = cell ?img i 0 \<and> cell c (1 + i) 4 = cell ?img i 2"
    by (auto simp: sh)
  have v: "cell ?img 0 0 = 1" "cell ?img 0 1 = 2" "cell ?img 0 2 = 3"
    "cell ?img 1 0 = 4" "cell ?img 1 2 = 6"
    "cell ?img 2 0 = 7" "cell ?img 2 1 = 8" "cell ?img 2 2 = 9"
    by (simp_all add: cell_def np_array_def)
  have "cell c 0 1 = 1" "cell c 0 2 = 2" "cell c 0 3 = 3"
    "cell c 4 1 = 7" "cell c 4 2 = 8" "cell c 4 3 = 9"
    using rows[rule_format, of 0] rows[rule_format, of 1] rows[rule_format, of 2] v
    by (simp_all add: eval_nat_numeral)
  moreover have "cell c 1 0 = 1" "cell c 2 0 = 4" "cell c 3 0 = 7"
    "cell c 1 4 = 3" "cell c 2 4 = 6" "cell c 3 4 = 9"
    using cols[rule_format, of 0] cols[rule_format, of 1] cols[rule_format, of 2] v
    by (simp_all add: eval_nat_numeral)
  ultimately show ?thesis using c h by blast
qed

section \<open>Claims about the maxima extractor\<close>

text \<open>
  C6. For every response map and threshold, \<open>get_maxima\<close> returns exactly the interior
  cells (row and column strictly between 0 and the last index) whose score reaches
  the threshold and is strictly greater than each of the eight neighbours, as tuples
  (column, row, score), each once; a cell with a neighbour of the same score fails the
  strict test and is not returned. Without the sort flag the points come in row-major
  scan order; with it they are the same points ordered by descending score.
\<close>

theorem get_maxima_spec:
  "get_maxima im threshold False =
     map (\<lambda>(k, j). (int j, int k, cell im k j))
         (filter (\<lambda>(k, j). strict_peak im threshold k j) (interior_cells im))
   \<and> ((u, v, p) \<in> set (get_maxima im threshold s) \<longleftrightarrow>
        (\<exists>k j. u = int j \<and> v = int k \<and> p = cell im k j
               \<and> 1 \<le> k \<and> k + 1 < nrows im \<and> 1 \<le> j \<and> j + 1 < ncols im
               \<and> threshold \<le> cell im k j
               \<and> cell im (k - 1) (j - 1) < cell im k j \<and> cell im (k - 1) j < cell im k j
               \<and> cell im (k - 1) (j + 1) < cell im k j
               \<and> cell im k (j - 1) < cell im k j \<and> cell im k (j + 1) < cell im k j
               \<and> cell im (k + 1) (j - 1) < cell im k j \<and> cell im (k + 1) j < cell im k j
               \<and> cell im (k + 1) (j + 1) < cell im k j))
   \<and> distinct (get_maxima im threshold s)
   \<and> mset (get_maxima im threshold True) = mset (get_maxima im threshold False)
   \<and> sorted_wrt (\<lambda>a b. snd (snd a) \<ge> snd (snd b)) (get_maxima im threshold True)"
proof -
  have "(u, v, p) \<in> set (get_maxima im threshold s) \<longleftrightarrow>
        (\<exists>k j. u = int j \<and> v = int k \<and> p = cell im k j
               \<and> 1 \<le> k \<and> k + 1 < nrows im \<and> 1 \<le> j \<and> j + 1 < ncols im
               \<and> threshold \<le> cell im k j
               \<and> cell im (k - 1) (j - 1) < cell im k j \<and> cell im (k - 1) j < cell im k j
               \<and> cell im (k - 1) (j + 1) < cell im k j
               \<and> cell im k (j - 1) < cell im k j \<and> cell im k (j + 1) < cell im k j
               \<and> cell im (k + 1) (j - 1) < cell im k j \<and> cell im (k + 1) j < cell im k j
               \<and> cell im (k + 1) (j + 1) < cell im k j)"
    unfolding get_maxima_mem strict_peak_def neighbours8_def by simp
  moreover have "mset (get_maxima im threshold True) = mset (get_maxima im threshold False)"
    by (simp add: get_maxima_sorted sort_desc_def)
  moreover have "sorted_wrt (\<lambda>a b. snd (snd a) \<ge> snd (snd b)) (get_maxima im threshold True)"
    unfolding get_maxima_sorted by (rule sorted_desc)
  ultimately show ?thesis
    using get_maxima_unsorted[of im threshold] distinct_get_maxima[of im threshold s] by blast
qed

theorem get_maxima_spec_witness:
  "(3, 1, 2) \<in> set (get_maxima (np_array 7 [[0, 0, 0, 0, 0, 0, 0], [0, 1, 0, 2, 0, 3, 0],
                                               [0, 0, 0, 0, 0, 0, 0]]) 0 True)
   \<and> (2, 1, 0) \<notin> set (get_maxima (np_array 7 [[0, 0, 0, 0, 0, 0, 0], [0, 1, 0, 2, 0, 3, 0],
                                               [0, 0, 0, 0, 0, 0, 0]]) 0 True)
   \<and> get_maxima (np_array 7 [[0, 0, 0, 0, 0, 0, 0], [0, 1, 0, 2, 0, 3, 0],
                             [0, 0, 0, 0, 0, 0, 0]]) 0 False
       = [(1, 1, 1), (3, 1, 2), (5, 1, 3)]
   \<and> get_maxima (np_array 7 [[0, 0, 0, 0, 0, 0, 0], [0, 1, 0, 2, 0, 3, 0],
                             [0, 0, 0, 0, 0, 0, 0]]) 0 True
       = [(5, 1, 3), (3, 1, 2), (1, 1, 1)]
   \<and> get_maxima (np_array 4 [[0, 0, 0, 0], [0, 1, 1, 0], [0, 0, 0, 0]]) 0 False = []"
proof -
  let ?H = "np_array 7 [[0, 0, 0, 0, 0, 0, 0], [0, 1, 0, 2, 0, 3, 0], [0, 0, 0, 0, 0, 0, 0]]"
  have u: "get_maxima ?H 0 False = [(1, 1, 1), (3, 1, 2), (5, 1, 3)]" by code_simp
  have s: "get_maxima ?H 0 True = [(5, 1, 3), (3, 1, 2), (1, 1, 1)]" by code_simp
  have p: "get_maxima (np_array 4 [[0, 0, 0, 0], [0, 1, 1, 0], [0, 0, 0, 0]]) 0 False = []"
    by code_simp
  have "distinct (get_maxima ?H 0 True)"
    using get_maxima_spec[of ?H 0 3 1 2 True] by blast
  then show ?thesis using u s p by simp
qed

text \<open>
  C10. No two points returned by \<open>get_maxima\<close> are 8-neighbours: two distinct returned
  points differ by at least 2 in the row or by at least 2 in the column.
\<close>

theorem maxima_not_adjacent:
  assumes "(u1, v1, p1) \<in> set (get_maxima im threshold s)"
    and "(u2, v2, p2) \<in> set (get_maxima im threshold s)"
    and "(u1, v1, p1) \<noteq> (u2, v2, p2)"
  shows "2 \<le> \<bar>v1 - v2\<bar> \<or> 2 \<le> \<bar>u1 - u2\<bar>"
proof (rule ccontr)
  assume "\<not> (2 \<le> \<bar>v1 - v2\<bar> \<or> 2 \<le> \<bar>u1 - u2\<bar>)"
  then have close: "\<bar>v1 - v2\<bar> \<le> 1" "\<bar>u1 - u2\<bar> \<le> 1" by auto
  from assms(1) obtain k1 j1 where 1: "u1 = int j1" "v1 = int k1" "p1 = cell im k1 j1"
    "1 \<le> k1" "1 \<le> j1" "strict_peak im threshold k1 j1"
    unfolding get_maxima_mem by blast
  from assms(2) obtain k2 j2 where 2: "u2 = int j2" "v2 = int k2" "p2 = cell im k2 j2"
    "1 \<le> k2" "1 \<le> j2" "strict_peak im threshold k2 j2"
    unfolding get_maxima_mem by blast
  have ne: "(k2, j2) \<noteq> (k1, j1)" using assms(3) 1 2 by auto
  have "(k2, j2) \<in> set (neighbours8 k1 j1)"
    using close ne 1 2 by (intro neighbour_mem) auto
  then have a: "cell im k2 j2 < cell im k1 j1"
    using 1(6) by (auto simp: strict_peak_def list_all_iff)
  have "(k1, j1) \<in> set (neighbours8 k2 j2)"
    using close ne 1 2 by (intro neighbour_mem) auto
  then have "cell im k1 j1 < cell im k2 j2"
    using 2(6) by (auto simp: strict_peak_def list_all_iff)
  with a show False by simp
qed

theorem maxima_not_adjacent_witness:
  "(1, 1, 3) \<in> set (get_maxima (np_array 7 [[0, 0, 0, 0, 0, 0, 0], [0, 3, 0, 2, 0, 1, 0],
                                               [0, 0, 0, 0, 0, 0, 0]]) 0 False)
   \<and> (3, 1, 2) \<in> set (get_maxima (np_array 7 [[0, 0, 0, 0, 0, 0, 0], [0, 3, 0, 2, 0, 1, 0],
                                                 [0, 0, 0, 0, 0, 0, 0]]) 0 False)
   \<and> (1::int, 1::int, 3::real) \<noteq> (3, 1, 2)
   \<and> (2 \<le> \<bar>(1::int) - 1\<bar> \<or> 2 \<le> \<bar>(1::int) - 3\<bar>)"
proof -
  let ?H = "np_array 7 [[0, 0, 0, 0, 0, 0, 0], [0, 3, 0, 2, 0, 1, 0], [0, 0, 0, 0, 0, 0, 0]]"
  have u: "get_maxima ?H 0 False = [(1, 1, 3), (3, 1, 2), (5, 1, 1)]" by code_simp
  have a: "(1, 1, 3) \<in> set (get_maxima ?H 0 False)" by (simp add: u)
  have b: "(3, 1, 2) \<in> set (get_maxima ?H 0 False)" by (simp add: u)
  have ne: "(1::int, 1::int, 3::real) \<noteq> (3, 1, 2)" by simp
  show ?thesis using a b ne maxima_not_adjacent[OF a b ne] by simp
qed

section \<open>Claims about the selectors\<close>

text \<open>
  C7. In brute-force ANMS the radius computed for candidate \<open>i\<close> is the least Euclidean
  distance to another candidate \<open>k\<close> with \<open>h_i < c * h_k\<close>, and the sentinel
  \<open>max(height, width)^2\<close> when there is no such candidate (\<open>spec_radii\<close>, where the
  distance is the distance in the plane, and the product and the radius are float64
  values); the returned points are the first \<open>n\<close> candidates after the sort by
  descending radius. It holds for every float64 arithmetic whose rounding is monotone
  and leaves the sentinel, an integer, as it is, whenever the threshold is computed
  (the map is not empty, or the mean is used) and the target count is not negative.
\<close>

theorem anms_spec:
  assumes "thresh_of fl H use_thresh = Inr thresh" "0 \<le> n"
    and "mono (fl_round fl)"
    and "fl_round fl (real ((max (nrows H) (ncols H))\<^sup>2)) = real ((max (nrows H) (ncols H))\<^sup>2)"
  shows "anms fl H n c use_thresh zipped =
           Inr (maxima_to_uv
                 (take (nat n)
                   (sort_desc (spec_radii fl (get_maxima H thresh False) c
                                 (real ((max (nrows H) (ncols H))\<^sup>2)))))
                 zipped)
       \<and> mset (sort_desc (spec_radii fl (get_maxima H thresh False) c
                                 (real ((max (nrows H) (ncols H))\<^sup>2))))
           = mset (spec_radii fl (get_maxima H thresh False) c
                     (real ((max (nrows H) (ncols H))\<^sup>2)))
       \<and> sorted_wrt (\<lambda>a b. snd (snd a) \<ge> snd (snd b))
           (sort_desc (spec_radii fl (get_maxima H thresh False) c
                                 (real ((max (nrows H) (ncols H))\<^sup>2))))"
proof -
  have "anms_loop fl (get_maxima H thresh False) (real ((max (nrows H) (ncols H))\<^sup>2)) c
          (enumerate 0 (get_maxima H thresh False)) []
        = spec_radii fl (get_maxima H thresh False) c (real ((max (nrows H) (ncols H))\<^sup>2))"
    using assms(3,4) by (intro anms_loop_spec) simp_all
  then have "anms fl H n c use_thresh zipped =
           Inr (maxima_to_uv
                 (take (nat n)
                   (sort_desc (spec_radii fl (get_maxima H thresh False) c
                                 (real ((max (nrows H) (ncols H))\<^sup>2)))))
                 zipped)"
    using assms(1,2) by (simp add: anms_def then_exn_simps Let_def py_take_nonneg)
  then show ?thesis
    by (simp add: sorted_desc) (simp add: sort_desc_def)
qed

theorem anms_spec_witness:
  "thresh_of exact three_peaks False = Inr 0
   \<and> (0::int) \<le> 3
   \<and> mono (fl_round exact)
   \<and> fl_round exact (real ((max (nrows three_peaks) (ncols three_peaks))\<^sup>2))
       = real ((max (nrows three_peaks) (ncols three_peaks))\<^sup>2)
   \<and> anms exact three_peaks 3 (1/2) False False
       = Inr (maxima_to_uv
               (take (nat 3)
                 (sort_desc
                   (spec_radii exact (get_maxima three_peaks 0 False) (1/2)
                     (real ((max (nrows three_peaks) (ncols three_peaks))\<^sup>2)))))
               False)
   \<and> anms exact three_peaks 3 (1/2) False False = Inr (Unzipped [2, 6, 4] [2, 2, 2])"
proof -
  have n: "(0::int) \<le> 3" by simp
  have f: "fl_round exact (real ((max (nrows three_peaks) (ncols three_peaks))\<^sup>2))
       = real ((max (nrows three_peaks) (ncols three_peaks))\<^sup>2)"
    by simp
  show ?thesis
    using anms_spec[OF three_peaks_thresh n mono_exact f, of "1/2" False]
      three_peaks_thresh[of exact] three_peaks_anms mono_exact f
    by simp
qed

text \<open>
  C8. In index-accelerated ANMS a candidate whose progressive search never finds a
  qualifying neighbour (at no \<open>k\<close> from 2 up to the number of candidates minus one is
  the last neighbour significantly stronger) contributes no entry: whenever
  \<open>anms_kdtree\<close> returns, the point of that candidate is not among the returned points,
  whatever the target count. Brute-force ANMS on the same trimmed map gives every
  candidate an entry, and returns the point of that candidate as soon as the target
  count reaches the number of candidates.
\<close>

theorem kdtree_drops_unsuppressed:
  assumes "anms_kdtree fl KDTree H0 n c edge use_thresh zipped = Inr res"
    and "thresh_of fl (trim H0 edge) use_thresh = Inr thresh"
    and "KDTree (map coord (get_maxima (trim H0 edge) thresh False)) = Inr query"
    and "i < length (get_maxima (trim H0 edge) thresh False)"
    and "\<forall>k \<in> {2 ..< length (get_maxima (trim H0 edge) thresh False)}.
           \<not> finds fl query (get_maxima (trim H0 edge) thresh False) c i k"
  shows "(fst (coord (get_maxima (trim H0 edge) thresh False ! i)) + edge,
          snd (coord (get_maxima (trim H0 edge) thresh False ! i)) + edge) \<notin> set (uv_points res)
       \<and> (\<forall>n' zipped' res'.
             anms fl (trim H0 edge) n' c use_thresh zipped' = Inr res'
             \<and> int (length (get_maxima (trim H0 edge) thresh False)) \<le> n'
             \<longrightarrow> coord (get_maxima (trim H0 edge) thresh False ! i) \<in> set (uv_points res'))"
proof -
  let ?maxima = "get_maxima (trim H0 edge) thresh False"
  have "False"
    if "(fst (coord (?maxima ! i)) + edge, snd (coord (?maxima ! i)) + edge) \<in> set (uv_points res)"
  proof -
    from kdtree_points[OF assms(1-3) that]
    obtain j k where j: "j < length ?maxima"
      and eq: "(fst (coord (?maxima ! i)) + edge, snd (coord (?maxima ! i)) + edge)
               = (fst (coord (?maxima ! j)) + edge, snd (coord (?maxima ! j)) + edge)"
      and k: "k \<in> {2 ..< length ?maxima}" and f: "finds fl query ?maxima c j k"
      by blast
    from eq have "coord (?maxima ! i) = coord (?maxima ! j)"
      by (simp add: prod_eq_iff)
    then have "i = j"
      using assms(4) j by (intro coord_index)
    with assms(5) k f show False by blast
  qed
  moreover have "coord (?maxima ! i) \<in> set (uv_points res')"
    if "anms fl (trim H0 edge) n' c use_thresh zipped' = Inr res'" "int (length ?maxima) \<le> n'"
    for n' zipped' res'
    using anms_points[OF that(1) assms(2) that(2)] assms(4) by simp
  ultimately show ?thesis by blast
qed

theorem kdtree_drops_unsuppressed_witness:
  "anms_kdtree exact KDTree_ref three_peaks 3 (1/2) 1 False False = Inr (Unzipped [4] [2])
   \<and> thresh_of exact (trim three_peaks 1) False = Inr 0
   \<and> get_maxima (trim three_peaks 1) 0 False = [(1, 1, 4), (3, 1, 1), (5, 1, 1)]
   \<and> (\<exists>query. KDTree_ref (map coord (get_maxima (trim three_peaks 1) 0 False)) = Inr query
         \<and> \<not> finds exact query (get_maxima (trim three_peaks 1) 0 False) (1/2) 0 2)
   \<and> (2, 2) \<notin> set (uv_points (Unzipped [4] [2]))
   \<and> anms exact (trim three_peaks 1) 3 (1/2) False False = Inr (Unzipped [1, 5, 3] [1, 1, 1])
   \<and> (1, 1) \<in> set (uv_points (Unzipped [1, 5, 3] [1, 1, 1]))"
proof -
  let ?maxima = "get_maxima (trim three_peaks 1) 0 False"
  obtain query where q: "KDTree_ref (map coord ?maxima) = Inr query" "query (1, 1) 2 = (2, 1)"
    using trimmed_index by blast
  have nf: "\<not> finds exact query ?maxima (1/2) 0 2"
    using q(2) by (simp add: finds_def trimmed_maxima coord_def)
  have i: "0 < length ?maxima" by (simp add: trimmed_maxima)
  have all: "\<forall>k \<in> {2 ..< length ?maxima}. \<not> finds exact query ?maxima (1/2) 0 k"
  proof
    fix k assume "k \<in> {2 ..< length ?maxima}"
    then have "k = 2" by (simp add: trimmed_maxima)
    with nf show "\<not> finds exact query ?maxima (1/2) 0 k" by simp
  qed
  from kdtree_drops_unsuppressed[OF three_peaks_kdtree trimmed_thresh q(1) i all]
  have "(fst (coord (?maxima ! 0)) + 1, snd (coord (?maxima ! 0)) + 1)
          \<notin> set (uv_points (Unzipped [4] [2]))"
    and "anms exact (trim three_peaks 1) 3 (1/2) False False = Inr (Unzipped [1, 5, 3] [1, 1, 1])
         \<and> int (length ?maxima) \<le> 3
         \<longrightarrow> coord (?maxima ! 0) \<in> set (uv_points (Unzipped [1, 5, 3] [1, 1, 1]))"
    by blast+
  then have "(2, 2) \<notin> set (uv_points (Unzipped [4] [2]))"
    and "(1, 1) \<in> set (uv_points (Unzipped [1, 5, 3] [1, 1, 1]))"
    using trimmed_anms by (simp_all add: trimmed_maxima coord_def)
  then show ?thesis
    using three_peaks_kdtree trimmed_thresh[of exact] trimmed_maxima trimmed_anms q(1) nf
    by blast
qed




section \<open>Claims about the kernel builder and the errors\<close>




text \<open>
  C9. A \<open>raise\<close> is the result \<open>Inl\<close> of the function, which a caller passes on.
  \<open>InvalidParameter\<close> is the \<open>ValueError\<close> with the message of the two \<open>raise\<close> statements
  of the module. \<open>convolve2d\<close> raises the one for an invalid boundary mode exactly when
  the mode is not one of \<open>valid\<close>, \<open>fill\<close>, \<open>extend\<close>, \<open>mirror\<close>, \<open>wrap\<close>, whatever the image
  and the kernel, and the message names the mode; \<open>get_gaussian_kernel\<close> raises the one
  for an even kernel size exactly when the requested side is even, and the message
  names the side.
\<close>

theorem invalid_parameter:
  "(convolve2d junk img kern boundary_mode fill = Inl (ValueError (Invalide_boundary_mode m))
      \<longleftrightarrow> boundary_mode \<notin> {''valid'', ''fill'', ''extend'', ''mirror'', ''wrap''}
          \<and> m = boundary_mode)
   \<and> (get_gaussian_kernel fl junk' (PyInt n) sigma = Inl (ValueError (Kernel_size_must_be_odd x))
      \<longleftrightarrow> even n \<and> x = PyInt n)"
  using boundary_mode_error[of junk img kern boundary_mode fill m]
    kernel_odd_error[of fl junk' n sigma x]
  by blast

end
